theory Spec2Isabelle
  imports Main "HOL-Library.Char_ord" "HOL-Library.List_Lexorder"
begin

section \<open>Bytes and strings\<close>

text \<open>
  A \<^verbatim>\<open>std::string\<close> is a sequence of bytes: \<^typ>\<open>string\<close>, that is \<^typ>\<open>char list\<close>,
  where \<^typ>\<open>char\<close> has exactly the values 0..255.  \<^verbatim>\<open>std::string::compare\<close> and therefore
  \<^verbatim>\<open>std::less\<close> order strings lexicographically by unsigned byte value;
  this is the order \<open>(<)\<close> on \<^typ>\<open>string\<close> of \<open>Char_ord\<close> and \<open>List_Lexorder\<close>.
\<close>

abbreviation CR :: char where "CR \<equiv> CHR 0x0D"
abbreviation LF :: char where "LF \<equiv> CHR 0x0A"
abbreviation NUL :: char where "NUL \<equiv> CHR 0x00"
abbreviation CRLF :: string where "CRLF \<equiv> [CR, LF]"

section \<open>\<^verbatim>\<open>std::map\<close>\<close>

text \<open>
  A \<^verbatim>\<open>std::map<K, V>\<close> keeps one value per key and is iterated in ascending key order.
  It is modelled by the list of its entries in iteration order; \<open>std_map\<close> is the
  invariant that the keys are strictly ascending.  \<open>map_assign k v m\<close> is the effect of
  \<^verbatim>\<open>m[k] = v\<close>, \<open>map_find\<close> is \<^verbatim>\<open>m.find(k)\<close>, and \<open>map_index\<close> is the value that
  \<^verbatim>\<open>m[k]\<close> refers to (a default-constructed one when the key is new).
\<close>

definition std_map :: "('k::linorder \<times> 'v) list \<Rightarrow> bool" where
  "std_map m = sorted_wrt (<) (map fst m)"

fun map_assign :: "'k::linorder \<Rightarrow> 'v \<Rightarrow> ('k \<times> 'v) list \<Rightarrow> ('k \<times> 'v) list" where
  "map_assign k v [] = [(k, v)]"
| "map_assign k v ((k', v') # m) =
     (if k < k' then (k, v) # (k', v') # m
      else if k = k' then (k, v) # m
      else (k', v') # map_assign k v m)"

definition map_find :: "'k \<Rightarrow> ('k \<times> 'v) list \<Rightarrow> 'v option" where
  "map_find k m = map_of m k"

definition map_index :: "'v \<Rightarrow> 'k \<Rightarrow> ('k \<times> 'v) list \<Rightarrow> 'v" where
  "map_index dflt k m = (case map_find k m of None \<Rightarrow> dflt | Some v \<Rightarrow> v)"

section \<open>The route table\<close>

text \<open>
  \<^verbatim>\<open>std::map<std::string, std::map<std::string, RouteHandler>> routes\<close>: the outer key is
  the method, the inner key the path template.  Handlers are opaque values of type \<open>'h\<close>.
  \<^verbatim>\<open>add_route\<close> is \<^verbatim>\<open>routes[method][path] = handler\<close>.
\<close>

type_synonym 'h route_table = "(string \<times> (string \<times> 'h) list) list"

definition add_route :: "string \<Rightarrow> string \<Rightarrow> 'h \<Rightarrow> 'h route_table \<Rightarrow> 'h route_table" where
  "add_route method path handler routes =
     map_assign method (map_assign path handler (map_index [] method routes)) routes"

text \<open>A server's table starts empty; \<open>register\<close> performs a sequence of \<^verbatim>\<open>add_route\<close> calls.\<close>

fun register :: "(string \<times> string \<times> 'h) list \<Rightarrow> 'h route_table \<Rightarrow> 'h route_table" where
  "register [] routes = routes"
| "register ((m, t, h) # regs) routes = register regs (add_route m t h routes)"

text \<open>All handlers that the table holds for a (method, template) pair, in table order.\<close>

definition handlers_for :: "'h route_table \<Rightarrow> string \<Rightarrow> string \<Rightarrow> 'h list" where
  "handlers_for routes method path =
     concat (map (\<lambda>(m, inner). if m = method
                    then map snd (filter (\<lambda>(t, h). t = path) inner) else []) routes)"

definition routes_wf :: "'h route_table \<Rightarrow> bool" where
  "routes_wf routes = (std_map routes \<and> (\<forall>(m, inner) \<in> set routes. std_map inner))"

section \<open>Responses\<close>

record HttpResponse =
  status_code :: int
  status_text :: string
  headers :: "(string \<times> string) list"
  body :: string
  binary_data :: "char list"
  is_binary :: bool

text \<open>The default constructor: status 200, text \<^verbatim>\<open>OK\<close>, not binary, everything else empty.\<close>

definition HttpResponse_default :: HttpResponse where
  "HttpResponse_default =
     \<lparr>status_code = 200, status_text = ''OK'', headers = [], body = [],
      binary_data = [], is_binary = False\<rparr>"

text \<open>Decimal output of \<^verbatim>\<open>operator<<\<close> for \<^verbatim>\<open>size_t\<close> and \<^verbatim>\<open>int\<close>.\<close>

definition digit_char :: "nat \<Rightarrow> char" where
  "digit_char d = ''0123456789'' ! d"

function show_nat :: "nat \<Rightarrow> string" where
  "show_nat n = (if n < 10 then [digit_char n] else show_nat (n div 10) @ [digit_char (n mod 10)])"
  by pat_completeness auto
termination
  by (relation "measure id") auto

declare show_nat.simps [simp del]

definition show_int :: "int \<Rightarrow> string" where
  "show_int i = (if i < 0 then CHR ''-'' # show_nat (nat (- i)) else show_nat (nat i))"

definition header_line :: "string \<times> string \<Rightarrow> string" where
  "header_line kv = fst kv @ '': '' @ snd kv @ CRLF"

definition build_response :: "HttpResponse \<Rightarrow> string" where
  "build_response response =
     ''HTTP/1.1 '' @ show_int (status_code response) @ '' '' @ status_text response @ CRLF
     @ concat (map header_line (headers response))
     @ (if is_binary response
        then ''Content-Length: '' @ show_nat (length (binary_data response)) @ CRLF
        else ''Content-Length: '' @ show_nat (length (body response)) @ CRLF)
     @ CRLF
     @ (if \<not> is_binary response then body response else [])"

text \<open>
  How a reader of the wire bytes sees the head of a response: the bytes are cut at every
  CRLF; the lines after the status line up to the first empty line are the header lines;
  the name of a header line is the text before its first colon.
\<close>

fun cons_first :: "char \<Rightarrow> string list \<Rightarrow> string list" where
  "cons_first c [] = [[c]]"
| "cons_first c (l # ls) = (c # l) # ls"

fun split_crlf :: "string \<Rightarrow> string list" where
  "split_crlf [] = [[]]"
| "split_crlf [c] = [[c]]"
| "split_crlf (c # d # cs) =
     (if c = CR \<and> d = LF then [] # split_crlf cs else cons_first c (split_crlf (d # cs)))"

definition header_section :: "string \<Rightarrow> string list" where
  "header_section wire = takeWhile (\<lambda>l. l \<noteq> []) (tl (split_crlf wire))"

definition header_name :: "string \<Rightarrow> string" where
  "header_name line = takeWhile (\<lambda>c. c \<noteq> CHR '':'') line"

definition content_length_lines :: "string \<Rightarrow> string list" where
  "content_length_lines wire =
     filter (\<lambda>l. header_name l = ''Content-Length'') (header_section wire)"

text \<open>A header entry without its line terminator, and the line that \<^verbatim>\<open>build_response\<close> computes.\<close>

definition header_text :: "string \<times> string \<Rightarrow> string" where
  "header_text kv = fst kv @ '': '' @ snd kv"

definition content_length_text :: "HttpResponse \<Rightarrow> string" where
  "content_length_text r =
     ''Content-Length: '' @
       show_nat (if is_binary r then length (binary_data r) else length (body r))"

definition no_CR :: "string \<Rightarrow> bool" where
  "no_CR s = (CR \<notin> set s)"

section \<open>Percent decoding\<close>

text \<open>
  \<^verbatim>\<open>std::string::substr(pos, n)\<close> for \<open>pos \<le> length s\<close> (every call below satisfies
  this; the library throws \<^verbatim>\<open>std::out_of_range\<close> otherwise).
\<close>

definition substr :: "string \<Rightarrow> nat \<Rightarrow> nat \<Rightarrow> string" where
  "substr s pos n = take n (drop pos s)"

text \<open>
  \<^verbatim>\<open>hex_stream >> std::hex >> hex_value\<close> on a \<^verbatim>\<open>std::istringstream\<close>, for an \<^verbatim>\<open>int\<close>:
  the stream first skips white space (\<^verbatim>\<open>isspace\<close> of the C locale); if it then is at the
  end of the input the extraction fails before anything is stored and the variable keeps
  its old content (\<open>Untouched\<close>).  Otherwise an optional sign, an optional \<^verbatim>\<open>0x\<close> prefix
  and the longest run of hexadecimal digits are read; with no digit the value 0 is stored,
  else the value of the digits, negated after a minus sign and clamped to the range of
  \<^verbatim>\<open>int\<close>.  The loop of \<^verbatim>\<open>url_decode\<close> does not look at the stream state afterwards.
\<close>

definition isspace :: "char \<Rightarrow> bool" where
  "isspace c = (c \<in> set [CHR '' '', CHR 0x09, CHR 0x0A, CHR 0x0B, CHR 0x0C, CHR 0x0D])"

definition hex_digit :: "char \<Rightarrow> nat option" where
  "hex_digit c =
     (let n = (of_char c :: nat) in
      if 48 \<le> n \<and> n \<le> 57 then Some (n - 48)
      else if 97 \<le> n \<and> n \<le> 102 then Some (n - 87)
      else if 65 \<le> n \<and> n \<le> 70 then Some (n - 55)
      else None)"

fun hex_value :: "nat \<Rightarrow> string \<Rightarrow> nat" where
  "hex_value acc [] = acc"
| "hex_value acc (c # cs) = hex_value (16 * acc + the (hex_digit c)) cs"

datatype extraction = Untouched | Stored int

definition INT_MAX :: int where "INT_MAX = 2147483647"
definition INT_MIN :: int where "INT_MIN = - 2147483648"

definition clamp_int :: "int \<Rightarrow> int" where
  "clamp_int v = (if v < INT_MIN then INT_MIN else if INT_MAX < v then INT_MAX else v)"

definition hex_extract :: "string \<Rightarrow> extraction" where
  "hex_extract s =
     (let s1 = dropWhile isspace s in
      if s1 = [] then Untouched
      else
        let negative = (hd s1 = CHR ''-'');
            s2 = (if hd s1 = CHR ''-'' \<or> hd s1 = CHR ''+'' then tl s1 else s1);
            s3 = (if take 2 s2 = ''0x'' \<or> take 2 s2 = ''0X'' then drop 2 s2 else s2);
            ds = takeWhile (\<lambda>c. hex_digit c \<noteq> None) s3
        in if ds = [] then Stored 0
           else Stored (clamp_int (if negative then - int (hex_value 0 ds) else int (hex_value 0 ds))))"

text \<open>
  The content of \<^verbatim>\<open>hex_value\<close> after the extraction.  The variable is declared without an
  initialiser, so \<open>uninit\<close> stands for whatever it holds when nothing is stored.
\<close>

definition hex_stream_value :: "int \<Rightarrow> string \<Rightarrow> int" where
  "hex_stream_value uninit s = (case hex_extract s of Stored v \<Rightarrow> v | Untouched \<Rightarrow> uninit)"

definition static_cast_char :: "int \<Rightarrow> char" where
  "static_cast_char v = char_of v"

text \<open>
  \<^verbatim>\<open>url_decode\<close>: the \<^verbatim>\<open>for\<close> loop over the index \<open>i\<close> with the accumulator
  \<open>decoded\<close>.  \<open>junk i\<close> is the indeterminate content of the uninitialised \<^verbatim>\<open>hex_value\<close>
  in the iteration at index \<open>i\<close>.
\<close>

function url_decode_loop :: "(nat \<Rightarrow> int) \<Rightarrow> string \<Rightarrow> nat \<Rightarrow> string \<Rightarrow> string" where
  "url_decode_loop junk str i decoded =
     (if i < length str then
        (if str ! i = CHR ''%'' \<and> i + 2 < length str then
           url_decode_loop junk str (i + 2 + 1)
             (decoded @ [static_cast_char (hex_stream_value (junk i) (substr str (i + 1) 2))])
         else if str ! i = CHR ''+'' then
           url_decode_loop junk str (i + 1) (decoded @ '' '')
         else
           url_decode_loop junk str (i + 1) (decoded @ [str ! i]))
      else decoded)"
  by pat_completeness auto
termination
  by (relation "measure (\<lambda>(junk, str, i, decoded). length str - i)") auto

declare url_decode_loop.simps [simp del]

definition url_decode :: "(nat \<Rightarrow> int) \<Rightarrow> string \<Rightarrow> string" where
  "url_decode junk str = url_decode_loop junk str 0 []"

text \<open>
  Percent-encoding over the reserved set \<open>{%, +, space}\<close>, as the specification uses the
  word: each of the three bytes is replaced by its escape (a space by \<^verbatim>\<open>%20\<close>, or by
  \<^verbatim>\<open>+\<close> when \<open>plus_for_space\<close>), every other byte stands for itself.  The repository has
  no encoder; this definition is the counterpart that the left-inverse property needs.
\<close>

definition percent_encode :: "bool \<Rightarrow> string \<Rightarrow> string" where
  "percent_encode plus_for_space s =
     concat (map (\<lambda>c. if c = CHR ''%'' then ''%25''
                       else if c = CHR ''+'' then ''%2B''
                       else if c = CHR '' '' then (if plus_for_space then ''+'' else ''%20'')
                       else [c]) s)"

section \<open>Route matching\<close>

text \<open>
  \<^verbatim>\<open>std::regex_replace(pattern, param_regex, "([^/]+)")\<close> with \<^verbatim>\<open>param_regex\<close> the
  regular expression \<^verbatim>\<open>\{[^}]+\}\<close>: scanning from the left, an opening brace that is
  followed by at least one byte other than a closing brace and then by a closing brace is
  replaced, together with everything up to that closing brace, by the text \<^verbatim>\<open>([^/]+)\<close>;
  every other byte is copied.
\<close>

function replace_params :: "string \<Rightarrow> string" where
  "replace_params [] = []"
| "replace_params (c # cs) =
     (if c = CHR ''{'' \<and> takeWhile (\<lambda>x. x \<noteq> CHR ''}'') cs \<noteq> []
          \<and> dropWhile (\<lambda>x. x \<noteq> CHR ''}'') cs \<noteq> []
      then ''([^/]+)'' @ replace_params (tl (dropWhile (\<lambda>x. x \<noteq> CHR ''}'') cs))
      else c # replace_params cs)"
  by pat_completeness auto
termination
  apply (relation "measure length")
    apply simp
   apply (simp add: less_Suc_eq_le)
   apply (rule le_trans [OF diff_le_self length_dropWhile_le])
  apply simp
  done

text \<open>
  The regular expressions of \<^verbatim>\<open>std::regex\<close> (ECMAScript grammar, default flags) are
  modelled for the fragment that route patterns built from ordinary templates use: a
  pattern is a sequence of
  \<^item> the assertions \<^verbatim>\<open>^\<close> and \<^verbatim>\<open>$\<close>,
  \<^item> atoms (an ordinary character, the dot, a bracket expression \<^verbatim>\<open>[...]\<close> or \<^verbatim>\<open>[^...]\<close>
    that lists ordinary characters), each with an optional greedy quantifier
    \<^verbatim>\<open>+\<close>, \<^verbatim>\<open>*\<close> or \<^verbatim>\<open>?\<close>,
  \<^item> capture groups \<^verbatim>\<open>(...)\<close> around a sequence of such quantified atoms.
  For any other pattern (escapes, alternation, counted or lazy quantifiers, nested or
  quantified groups, unbalanced brackets, for some of which the library throws
  \<^verbatim>\<open>std::regex_error\<close>) the parser returns \<open>None\<close>: the model says nothing about them.
\<close>

datatype quant = Once | Plus | Star | Opt

datatype atom = Lit char | AnyChar | Bracket bool "char list"

datatype piece = Bol | Eol | Atom atom quant | Group "(atom \<times> quant) list"

datatype token =
  TChar char | TDot | TBracket bool "char list" | TQuant quant | TOpen | TClose | TBol | TEol

definition regex_special :: "char \<Rightarrow> bool" where
  "regex_special c = (c \<in> set (CHR 0x5C # ''^$.*+?()[]{}|''))"

datatype lex_state = Normal | InBracket bool bool "char list"

definition cons_opt :: "'a \<Rightarrow> 'a list option \<Rightarrow> 'a list option" where
  "cons_opt x r = map_option ((#) x) r"

text \<open>
  The scanner.  In a bracket expression the state holds whether the scanner is still at
  its first position (where \<^verbatim>\<open>^\<close> negates), whether it is negated, and its members.
\<close>

fun scan :: "lex_state \<Rightarrow> string \<Rightarrow> token list option" where
  "scan Normal [] = Some []"
| "scan (InBracket first neg ms) [] = None"
| "scan Normal (c # cs) =
     (if c = CHR ''['' then scan (InBracket True False []) cs
      else if c = CHR ''.'' then cons_opt TDot (scan Normal cs)
      else if c = CHR ''^'' then cons_opt TBol (scan Normal cs)
      else if c = CHR ''$'' then cons_opt TEol (scan Normal cs)
      else if c = CHR ''('' then cons_opt TOpen (scan Normal cs)
      else if c = CHR '')'' then cons_opt TClose (scan Normal cs)
      else if c = CHR ''+'' then cons_opt (TQuant Plus) (scan Normal cs)
      else if c = CHR ''*'' then cons_opt (TQuant Star) (scan Normal cs)
      else if c = CHR ''?'' then cons_opt (TQuant Opt) (scan Normal cs)
      else if regex_special c then None
      else cons_opt (TChar c) (scan Normal cs))"
| "scan (InBracket first neg ms) (c # cs) =
     (if c = CHR ''^'' \<and> first then scan (InBracket False True ms) cs
      else if c = CHR '']'' then
        (if ms = [] then None else cons_opt (TBracket neg ms) (scan Normal cs))
      else if c = CHR 0x5C \<or> c = CHR ''['' \<or> c = CHR ''-'' \<or> c = CHR ''^'' then None
      else scan (InBracket False neg (ms @ [c])) cs)"

fun atom_of :: "token \<Rightarrow> atom option" where
  "atom_of (TChar c) = Some (Lit c)"
| "atom_of TDot = Some AnyChar"
| "atom_of (TBracket neg ms) = Some (Bracket neg ms)"
| "atom_of t = None"

text \<open>
  The parser.  Its state is \<open>None\<close> at top level and \<open>Some items\<close> inside a capture group,
  with the quantified atoms read so far.
\<close>

fun build :: "(atom \<times> quant) list option \<Rightarrow> token list \<Rightarrow> piece list option" where
  "build None [] = Some []"
| "build (Some its) [] = None"
| "build None (t # ts) =
     (if t = TBol then cons_opt Bol (build None ts)
      else if t = TEol then cons_opt Eol (build None ts)
      else if t = TOpen then build (Some []) ts
      else (case atom_of t of
              None \<Rightarrow> None
            | Some a \<Rightarrow>
                (case ts of
                   TQuant q # ts' \<Rightarrow> cons_opt (Atom a q) (build None ts')
                 | _ \<Rightarrow> cons_opt (Atom a Once) (build None ts))))"
| "build (Some its) (t # ts) =
     (if t = TClose then
        (case ts of
           TQuant q # ts' \<Rightarrow> None
         | _ \<Rightarrow> cons_opt (Group its) (build None ts))
      else (case atom_of t of
              None \<Rightarrow> None
            | Some a \<Rightarrow>
                (case ts of
                   TQuant q # ts' \<Rightarrow> build (Some (its @ [(a, q)])) ts'
                 | _ \<Rightarrow> build (Some (its @ [(a, Once)])) ts)))"

definition parse_regex :: "string \<Rightarrow> piece list option" where
  "parse_regex s = (case scan Normal s of None \<Rightarrow> None | Some ts \<Rightarrow> build None ts)"

text \<open>
  Matching is the library's depth-first search: every function returns the ways to go on
  in the order in which the search tries them (a greedy quantifier tries the longest run
  first).  The dot matches every character but the line terminators; a bracket
  expression matches its members, or everything else when negated.
\<close>

fun atom_ok :: "atom \<Rightarrow> char \<Rightarrow> bool" where
  "atom_ok (Lit c) x = (x = c)"
| "atom_ok AnyChar x = (x \<noteq> LF \<and> x \<noteq> CR)"
| "atom_ok (Bracket neg ms) x = ((x \<in> set ms) \<noteq> neg)"

fun star_ends :: "atom \<Rightarrow> string \<Rightarrow> string list" where
  "star_ends a [] = [[]]"
| "star_ends a (c # cs) = (if atom_ok a c then star_ends a cs @ [c # cs] else [c # cs])"

fun once_ends :: "atom \<Rightarrow> string \<Rightarrow> string list" where
  "once_ends a [] = []"
| "once_ends a (c # cs) = (if atom_ok a c then [cs] else [])"

fun item_ends :: "atom \<times> quant \<Rightarrow> string \<Rightarrow> string list" where
  "item_ends (a, Once) s = once_ends a s"
| "item_ends (a, Plus) s = concat (map (star_ends a) (once_ends a s))"
| "item_ends (a, Star) s = star_ends a s"
| "item_ends (a, Opt) s = once_ends a s @ [s]"

fun items_ends :: "(atom \<times> quant) list \<Rightarrow> string \<Rightarrow> string list" where
  "items_ends [] s = [s]"
| "items_ends (it # its) s = concat (map (items_ends its) (item_ends it s))"

text \<open>
  \<open>pieces_match n ps s caps\<close>: the capture lists of the complete matches of the pieces
  \<open>ps\<close> against the rest \<open>s\<close> of an input of length \<open>n\<close>, in search order; \<open>caps\<close> are
  the groups captured so far.  \<^verbatim>\<open>^\<close> holds at the start of the input only, \<^verbatim>\<open>$\<close> at its
  end only, and \<^verbatim>\<open>regex_match\<close> accepts only at the end of the input.
\<close>

fun pieces_match :: "nat \<Rightarrow> piece list \<Rightarrow> string \<Rightarrow> string list \<Rightarrow> string list list" where
  "pieces_match n [] s caps = (if s = [] then [caps] else [])"
| "pieces_match n (Bol # ps) s caps = (if length s = n then pieces_match n ps s caps else [])"
| "pieces_match n (Eol # ps) s caps = (if s = [] then pieces_match n ps s caps else [])"
| "pieces_match n (Atom a q # ps) s caps =
     concat (map (\<lambda>s'. pieces_match n ps s' caps) (item_ends (a, q) s))"
| "pieces_match n (Group its # ps) s caps =
     concat (map (\<lambda>s'. pieces_match n ps s' (caps @ [take (length s - length s') s]))
                 (items_ends its s))"

text \<open>
  \<^verbatim>\<open>std::regex_match(s, matches, re)\<close>: \<open>None\<close> when there is no match, else the captured
  groups 1, 2, ... of the first match found.
\<close>

definition regex_match :: "piece list \<Rightarrow> string \<Rightarrow> string list option" where
  "regex_match re s =
     (case pieces_match (length s) re s [] of [] \<Rightarrow> None | caps # _ \<Rightarrow> Some caps)"

text \<open>
  One probe of the route loop: the pattern is rewritten, anchored and compiled, and the
  request path is matched against it.  The outer \<open>None\<close> is a pattern outside the modelled
  fragment.
\<close>

definition route_regex :: "string \<Rightarrow> piece list option" where
  "route_regex pattern = parse_regex (''^'' @ replace_params pattern @ ''$'')"

definition route_captures :: "string \<Rightarrow> string \<Rightarrow> string list option option" where
  "route_captures pattern path = map_option (\<lambda>re. regex_match re path) (route_regex pattern)"

definition route_matches :: "string \<Rightarrow> string \<Rightarrow> bool option" where
  "route_matches pattern path = map_option (\<lambda>r. r \<noteq> None) (route_captures pattern path)"

text \<open>
  The class \<^verbatim>\<open>std::regex\<close> belongs to the standard library, not to the repository, and its
  grammar is larger than the fragment above.  The route loop therefore takes the library
  as a parameter: \<open>lib re s\<close> is \<open>None\<close> when the library throws \<^verbatim>\<open>std::regex_error\<close> (the
  constructor \<^verbatim>\<open>std::regex(re)\<close> on a pattern that it rejects, or the matcher), and
  otherwise tells whether \<^verbatim>\<open>std::regex_match\<close> finds that \<open>re\<close> matches all of \<open>s\<close>.  \<open>regex_model\<close> is the model of the library on the fragment (its
  \<open>None\<close> is a pattern outside the fragment); \<open>probe\<close> is one pass through the body of
  the inner loop.
\<close>

type_synonym regex_library = "string \<Rightarrow> string \<Rightarrow> bool option"

definition regex_model :: regex_library where
  "regex_model re s = map_option (\<lambda>ps. regex_match ps s \<noteq> None) (parse_regex re)"

definition probe :: "regex_library \<Rightarrow> string \<Rightarrow> string \<Rightarrow> bool option" where
  "probe lib pattern path = lib (''^'' @ replace_params pattern @ ''$'') path"

text \<open>
  The route loop of \<^verbatim>\<open>handle_client\<close>: the outer loop runs over the methods of the table,
  the inner loop over the templates of the request's method, both in the iteration order
  of \<^verbatim>\<open>std::map\<close>; the first template that matches wins.  The result is the handler that
  is invoked, or \<open>None\<close> when \<^verbatim>\<open>route_found\<close> stays false and the 404 response is sent.
  Nothing in \<^verbatim>\<open>handle_client\<close> catches the exception of a pattern that the library
  rejects: the loop ends there (\<open>Inl RegexError\<close>), no handler is invoked and no response
  is sent.
\<close>

datatype lookup_error = RegexError

fun match_routes ::
    "regex_library \<Rightarrow> (string \<times> 'h) list \<Rightarrow> string \<Rightarrow> lookup_error + 'h option" where
  "match_routes lib [] path = Inr None"
| "match_routes lib ((pattern, handler) # rest) path =
     (case probe lib pattern path of
        None \<Rightarrow> Inl RegexError
      | Some True \<Rightarrow> Inr (Some handler)
      | Some False \<Rightarrow> match_routes lib rest path)"

fun find_route ::
    "regex_library \<Rightarrow> 'h route_table \<Rightarrow> string \<Rightarrow> string \<Rightarrow> lookup_error + 'h option" where
  "find_route lib [] method path = Inr None"
| "find_route lib ((m, inner) # rest) method path =
     (if m = method then
        (case match_routes lib inner path of
           Inl e \<Rightarrow> Inl e
         | Inr (Some handler) \<Rightarrow> Inr (Some handler)
         | Inr None \<Rightarrow> find_route lib rest method path)
      else find_route lib rest method path)"

text \<open>The registrations of \<^verbatim>\<open>setup_default_routes\<close>, in source order; handlers by name.\<close>

definition default_routes :: "(string \<times> string \<times> string) list" where
  "default_routes =
     [(''POST'', ''/api/data/{collection}'', ''handle_crud_create''),
      (''GET'', ''/api/data/{collection}/{id}'', ''handle_crud_read''),
      (''GET'', ''/api/data/{collection}'', ''handle_crud_read_all''),
      (''PUT'', ''/api/data/{collection}/{id}'', ''handle_crud_update''),
      (''DELETE'', ''/api/data/{collection}/{id}'', ''handle_crud_delete''),
      (''POST'', ''/api/files/upload'', ''handle_file_upload''),
      (''GET'', ''/api/files/download/{filename}'', ''handle_file_download''),
      (''GET'', ''/api/files'', ''handle_file_list''),
      (''GET'', ''/'', ''handle_client_page'')]"

text \<open>
  What the table holds for a (method, template) pair, and what a sequence of
  registrations assigns to it (the handler of the last registration of the pair).
\<close>

definition table_lookup :: "'h route_table \<Rightarrow> string \<Rightarrow> string \<Rightarrow> 'h option" where
  "table_lookup routes method path =
     (case map_find method routes of None \<Rightarrow> None | Some inner \<Rightarrow> map_find path inner)"

fun registered :: "(string \<times> string \<times> 'h) list \<Rightarrow> string \<Rightarrow> string \<Rightarrow> 'h option" where
  "registered [] method path = None"
| "registered ((m, t, h) # regs) method path =
     (case registered regs method path of
        Some h' \<Rightarrow> Some h'
      | None \<Rightarrow> if m = method \<and> t = path then Some h else None)"

text \<open>
  The precedence rule in the words of the specification: among the registrations, in
  registration order, the first one with the request's method whose template matches.
\<close>

fun registration_order_match ::
    "regex_library \<Rightarrow> (string \<times> string \<times> 'h) list \<Rightarrow> string \<Rightarrow> string \<Rightarrow> 'h option" where
  "registration_order_match lib [] method path = None"
| "registration_order_match lib ((m, t, h) # regs) method path =
     (if m = method \<and> probe lib t path = Some True then Some h
      else registration_order_match lib regs method path)"

text \<open>
  Templates as the specification describes them: a sequence of literal texts and named
  parameters \<^verbatim>\<open>{name}\<close>.  \<open>render_template\<close> writes a template as the string that is
  registered.  \<open>matches_segments\<close> is the matching rule in the specification's words:
  the whole path is consumed, a literal matches itself, a parameter matches one or more
  bytes none of which is a slash.  In a \<open>plain_template\<close> no literal contains a byte
  that is special in a regular expression, and every name is non-empty and has no closing
  brace.
\<close>

datatype segment = Literal string | Param string

fun render_segment :: "segment \<Rightarrow> string" where
  "render_segment (Literal s) = s"
| "render_segment (Param name) = ''{'' @ name @ ''}''"

definition render_template :: "segment list \<Rightarrow> string" where
  "render_template segs = concat (map render_segment segs)"

fun matches_segments :: "segment list \<Rightarrow> string \<Rightarrow> bool" where
  "matches_segments [] p = (p = [])"
| "matches_segments (Literal s # segs) p =
     (take (length s) p = s \<and> matches_segments segs (drop (length s) p))"
| "matches_segments (Param name # segs) p =
     list_ex (\<lambda>k. CHR ''/'' \<notin> set (take k p) \<and> matches_segments segs (drop k p))
       [1 ..< Suc (length p)]"

fun plain_segment :: "segment \<Rightarrow> bool" where
  "plain_segment (Literal s) = list_all (\<lambda>c. \<not> regex_special c) s"
| "plain_segment (Param name) = (name \<noteq> [] \<and> CHR ''}'' \<notin> set name)"

definition plain_template :: "segment list \<Rightarrow> bool" where
  "plain_template segs = list_all plain_segment segs"

text \<open>
  The regular expression text, the tokens and the parsed pieces that a segment of a plain
  template gives rise to; \<open>app_opt\<close> and \<open>no_quant_head\<close> serve to state how the scanner
  and the parser go through them.
\<close>

fun segment_regex :: "segment \<Rightarrow> string" where
  "segment_regex (Literal s) = s"
| "segment_regex (Param name) = ''([^/]+)''"

fun segment_tokens :: "segment \<Rightarrow> token list" where
  "segment_tokens (Literal s) = map TChar s"
| "segment_tokens (Param name) = [TOpen, TBracket True ''/'', TQuant Plus, TClose]"

fun segment_pieces :: "segment \<Rightarrow> piece list" where
  "segment_pieces (Literal s) = map (\<lambda>c. Atom (Lit c) Once) s"
| "segment_pieces (Param name) = [Group [(Bracket True ''/'', Plus)]]"

definition app_opt :: "'a list \<Rightarrow> 'a list option \<Rightarrow> 'a list option" where
  "app_opt xs r = map_option ((@) xs) r"

definition no_quant_head :: "token list \<Rightarrow> bool" where
  "no_quant_head ts = (case ts of TQuant q # ts' \<Rightarrow> False | _ \<Rightarrow> True)"

section \<open>String operations of the standard library\<close>

text \<open>
  \<^verbatim>\<open>s.find(needle, pos)\<close>: the least index \<open>\<ge> pos\<close> at which \<open>needle\<close> occurs in \<open>s\<close>, or
  \<open>None\<close> for \<^verbatim>\<open>npos\<close>.
\<close>

fun find_sub :: "string \<Rightarrow> string \<Rightarrow> nat option" where
  "find_sub needle [] = (if needle = [] then Some 0 else None)"
| "find_sub needle (c # cs) =
     (if take (length needle) (c # cs) = needle then Some 0
      else map_option Suc (find_sub needle cs))"

definition find_from :: "string \<Rightarrow> string \<Rightarrow> nat \<Rightarrow> nat option" where
  "find_from s needle pos =
     (if length s < pos then None else map_option ((+) pos) (find_sub needle (drop pos s)))"

text \<open>
  \<^verbatim>\<open>s.erase(0, s.find_first_not_of(chars))\<close> removes the leading bytes that are in
  \<open>chars\<close> (all of \<open>s\<close> when there is no other byte, the position then being \<^verbatim>\<open>npos\<close>);
  \<^verbatim>\<open>s.erase(s.find_last_not_of(chars) + 1)\<close> removes the trailing ones (all of \<open>s\<close>
  when there is no other byte, \<^verbatim>\<open>npos + 1\<close> being 0).
\<close>

definition erase_leading :: "string \<Rightarrow> string \<Rightarrow> string" where
  "erase_leading chars s = dropWhile (\<lambda>c. c \<in> set chars) s"

definition erase_trailing :: "string \<Rightarrow> string \<Rightarrow> string" where
  "erase_trailing chars s = rev (dropWhile (\<lambda>c. c \<in> set chars) (rev s))"

abbreviation TAB :: char where "TAB \<equiv> CHR 0x09"

definition trim :: "string \<Rightarrow> string" where
  "trim s = erase_trailing [CHR '' '', TAB, CR, LF] (erase_leading [CHR '' '', TAB] s)"

text \<open>
  \<^verbatim>\<open>std::stoul(s)\<close> on a platform with a 64-bit \<^verbatim>\<open>unsigned long\<close>: leading white space
  is skipped, an optional sign and the longest run of decimal digits are read.  Without a
  digit the call throws \<^verbatim>\<open>std::invalid_argument\<close>, with a value above \<^verbatim>\<open>ULONG_MAX\<close> it
  throws \<^verbatim>\<open>std::out_of_range\<close> (both \<open>None\<close>); after a minus sign the value is negated
  in unsigned arithmetic.
\<close>

definition dec_digit :: "char \<Rightarrow> nat option" where
  "dec_digit c =
     (let n = (of_char c :: nat) in if 48 \<le> n \<and> n \<le> 57 then Some (n - 48) else None)"

fun dec_value :: "nat \<Rightarrow> string \<Rightarrow> nat" where
  "dec_value acc [] = acc"
| "dec_value acc (c # cs) = dec_value (10 * acc + the (dec_digit c)) cs"

definition ULONG_MAX :: nat where
  "ULONG_MAX = 2 ^ 64 - 1"

definition stoul :: "string \<Rightarrow> nat option" where
  "stoul s =
     (let s1 = dropWhile isspace s;
          negative = (s1 \<noteq> [] \<and> hd s1 = CHR ''-'');
          s2 = (if s1 \<noteq> [] \<and> (hd s1 = CHR ''-'' \<or> hd s1 = CHR ''+'') then tl s1 else s1);
          ds = takeWhile (\<lambda>c. dec_digit c \<noteq> None) s2;
          v = dec_value 0 ds
      in if ds = [] then None
         else if ULONG_MAX < v then None
         else Some (if negative then (2 ^ 64 - v) mod 2 ^ 64 else v))"

section \<open>Reading a request from the connection\<close>

text \<open>
  The peer's side of the connection is the list of byte chunks that successive calls of
  \<^verbatim>\<open>recv\<close> can deliver; an empty chunk, or the end of the list, is a call that returns
  no bytes (the peer closed, or an error).  \<^verbatim>\<open>recv(client_socket, buffer, 8191, 0)\<close>
  delivers at most 8191 bytes of the first chunk and leaves the rest for the next call.
\<close>

definition BUFFER_MAX :: nat where
  "BUFFER_MAX = 8191"

fun recv :: "string list \<Rightarrow> string \<times> string list" where
  "recv [] = ([], [])"
| "recv (chunk # rest) =
     (if length chunk \<le> BUFFER_MAX then (chunk, rest)
      else (take BUFFER_MAX chunk, drop BUFFER_MAX chunk # rest))"

text \<open>
  \<^verbatim>\<open>buffer[bytes_received] = '\0'; std::string(buffer)\<close>: the constructor reads a C string,
  so the bytes up to the first NUL.
\<close>

definition c_string :: "string \<Rightarrow> string" where
  "c_string buffer = takeWhile (\<lambda>c. c \<noteq> NUL) buffer"

text \<open>
  The state of the read loop: the request buffer, the byte counter, the connection, and
  (for the statements below) the number of \<^verbatim>\<open>recv\<close> calls made so far.
\<close>

record read_state =
  request_str :: string
  body_received :: nat
  socket :: "string list"
  reads :: nat

function read_remaining :: "nat \<Rightarrow> read_state \<Rightarrow> read_state" where
  "read_remaining content_length st =
     (if body_received st < content_length then
        (case recv (socket st) of
           (bytes, socket') \<Rightarrow>
             if length bytes \<le> 0 then st\<lparr>socket := socket', reads := reads st + 1\<rparr>
             else read_remaining content_length
                    \<lparr>request_str = request_str st @ c_string bytes,
                     body_received = body_received st + length bytes,
                     socket = socket',
                     reads = reads st + 1\<rparr>)
      else st)"
  by pat_completeness auto
termination
  apply (relation "measure (\<lambda>(n, st). sum_list (map (\<lambda>c. Suc (length c)) (socket st)))")
   apply simp
  subgoal for content_length st
    by (cases "socket st") (auto simp: BUFFER_MAX_def split: if_splits)
  done

declare read_remaining.simps [simp del]

text \<open>
  The first part of \<^verbatim>\<open>handle_client\<close>: the initial read, and the further reads that the
  text after the first occurrence of \<^verbatim>\<open>Content-Length:\<close> in the buffer asks for.  The
  result is \<open>None\<close> when the initial read delivers nothing (the connection is closed
  without a response), else the state in which the buffer goes to \<^verbatim>\<open>parse_request\<close>.
\<close>

definition content_length_of :: "string \<Rightarrow> nat" where
  "content_length_of length_str = (case stoul length_str of None \<Rightarrow> 0 | Some n \<Rightarrow> n)"

definition read_request :: "string list \<Rightarrow> read_state option" where
  "read_request sock =
     (case recv sock of
        (bytes, socket1) \<Rightarrow>
          if length bytes \<le> 0 then None
          else
            let st = \<lparr>request_str = c_string bytes, body_received = 0,
                      socket = socket1, reads = 1\<rparr>
            in case find_from (request_str st) ''Content-Length:'' 0 of
                 None \<Rightarrow> Some st
               | Some content_length_pos \<Rightarrow>
                   (case find_from (request_str st) CRLF content_length_pos of
                      None \<Rightarrow> Some st
                    | Some line_end \<Rightarrow>
                        let length_str =
                              trim (substr (request_str st) (content_length_pos + 15)
                                      (line_end - content_length_pos - 15));
                            content_length = content_length_of length_str
                        in case find_from (request_str st) (CRLF @ CRLF) 0 of
                             None \<Rightarrow> Some st
                           | Some header_end \<Rightarrow>
                               let headers_size = header_end + 4
                               in Some (read_remaining content_length
                                    (st\<lparr>body_received :=
                                           length (request_str st) - headers_size\<rparr>))))"

text \<open>Two request heads used in the statements below.\<close>

definition post_head :: string where
  "post_head = ''POST /u HTTP/1.1'' @ CRLF @ ''Content-Length: 3'' @ CRLF @ CRLF"

definition get_request :: string where
  "get_request = ''GET /Content-Length:5 HTTP/1.1'' @ CRLF @ ''Host: x'' @ CRLF @ CRLF"

definition plain_get :: string where
  "plain_get = ''GET /api/files HTTP/1.1'' @ CRLF @ ''Host: x'' @ CRLF @ CRLF"

definition bad_length_post :: string where
  "bad_length_post = ''POST /u HTTP/1.1'' @ CRLF @ ''Content-Length: abc'' @ CRLF @ CRLF @ ''a''"

section \<open>Requests and the request parser\<close>

record FileData =
  filename :: string
  content_type :: string
  data :: "char list"

text \<open>
  \<^verbatim>\<open>struct HttpRequest\<close>; the fields \<^verbatim>\<open>method\<close>, \<^verbatim>\<open>path\<close>, \<^verbatim>\<open>version\<close>, \<^verbatim>\<open>headers\<close> and \<^verbatim>\<open>body\<close>
  carry the prefix \<open>req_\<close>.  The four mappings are \<^verbatim>\<open>std::map\<close>s.
\<close>

record HttpRequest =
  req_method :: string
  req_path :: string
  req_version :: string
  req_headers :: "(string \<times> string) list"
  req_body :: string
  query_params :: "(string \<times> string) list"
  form_data :: "(string \<times> string) list"
  files :: "(string \<times> FileData) list"

definition HttpRequest_default :: HttpRequest where
  "HttpRequest_default =
     \<lparr>req_method = [], req_path = [], req_version = [], req_headers = [], req_body = [],
      query_params = [], form_data = [], files = []\<rparr>"

text \<open>
  \<^verbatim>\<open>std::getline(stream, line, delim)\<close> called until it fails: the pieces of the text
  between delimiters; a text that ends with the delimiter has no empty last piece.
\<close>

fun getlines_acc :: "char \<Rightarrow> string \<Rightarrow> string \<Rightarrow> string list" where
  "getlines_acc delim cur [] = (if cur = [] then [] else [cur])"
| "getlines_acc delim cur (c # cs) =
     (if c = delim then cur # getlines_acc delim [] cs else getlines_acc delim (cur @ [c]) cs)"

definition getlines :: "char \<Rightarrow> string \<Rightarrow> string list" where
  "getlines delim s = getlines_acc delim [] s"

text \<open>\<^verbatim>\<open>stream >> a >> b >> c\<close> on strings: the white-space separated words of the line.\<close>

fun words_acc :: "string \<Rightarrow> string \<Rightarrow> string list" where
  "words_acc cur [] = (if cur = [] then [] else [cur])"
| "words_acc cur (c # cs) =
     (if isspace c then (if cur = [] then words_acc [] cs else cur # words_acc [] cs)
      else words_acc (cur @ [c]) cs)"

definition word_at :: "string list \<Rightarrow> nat \<Rightarrow> string" where
  "word_at ws i = (if i < length ws then ws ! i else [])"

text \<open>
  \<^verbatim>\<open>pos = s.find(c)\<close> with \<^verbatim>\<open>s.substr(0, pos)\<close> and \<^verbatim>\<open>s.substr(pos + 1)\<close>: the parts before
  and after the first occurrence of \<open>c\<close>, when there is one.
\<close>

definition split_first :: "char \<Rightarrow> string \<Rightarrow> (string \<times> string) option" where
  "split_first c s =
     (if c \<in> set s then Some (takeWhile (\<lambda>x. x \<noteq> c) s, tl (dropWhile (\<lambda>x. x \<noteq> c) s))
      else None)"

text \<open>
  The loop over \<^verbatim>\<open>key=value\<close> pairs, which the query string and the URL-encoded body
  share: a pair without \<^verbatim>\<open>=\<close> is skipped, a repeated key is overwritten.
\<close>

fun parse_pairs ::
    "(nat \<Rightarrow> int) \<Rightarrow> string list \<Rightarrow> (string \<times> string) list \<Rightarrow> (string \<times> string) list" where
  "parse_pairs junk [] m = m"
| "parse_pairs junk (param # params) m =
     (case split_first (CHR ''='') param of
        None \<Rightarrow> parse_pairs junk params m
      | Some (key, val) \<Rightarrow>
          parse_pairs junk params (map_assign (url_decode junk key) (url_decode junk val) m))"

definition parse_url_encoded_form_data :: "(nat \<Rightarrow> int) \<Rightarrow> HttpRequest \<Rightarrow> HttpRequest" where
  "parse_url_encoded_form_data junk request =
     request\<lparr>form_data :=
        parse_pairs junk (getlines (CHR ''&'') (req_body request)) (form_data request)\<rparr>"

text \<open>
  The header loop: lines are read until one is empty or a lone CR (that line is consumed);
  the result is the header mapping and the lines that are left for the body.
\<close>

fun parse_headers ::
    "string list \<Rightarrow> (string \<times> string) list \<Rightarrow> (string \<times> string) list \<times> string list" where
  "parse_headers [] hs = (hs, [])"
| "parse_headers (line # lines) hs =
     (if line = [CR] \<or> line = [] then (hs, lines)
      else (case split_first (CHR '':'') line of
              None \<Rightarrow> parse_headers lines hs
            | Some (key, val) \<Rightarrow> parse_headers lines (map_assign (trim key) (trim val) hs)))"

text \<open>The body: every remaining line followed by a newline, the last newline removed.\<close>

definition join_body :: "string list \<Rightarrow> string" where
  "join_body lines = butlast (concat (map (\<lambda>l. l @ [LF]) lines))"

section \<open>The multipart decoder\<close>

text \<open>
  \<^verbatim>\<open>key="value"\<close> inside a header line: the text between the end of the first occurrence
  of \<open>key\<close> (which ends with the opening quote) and the next quote; \<open>None\<close> when either
  is missing, in which case the variable keeps its content.
\<close>

definition quoted_value :: "string \<Rightarrow> string \<Rightarrow> string option" where
  "quoted_value hline key =
     (case find_from hline key 0 of
        None \<Rightarrow> None
      | Some key_pos \<Rightarrow>
          (case find_from hline [CHR 0x22] (key_pos + length key) of
             None \<Rightarrow> None
           | Some value_end \<Rightarrow>
               Some (substr hline (key_pos + length key)
                       (value_end - (key_pos + length key)))))"

text \<open>The loop over the header lines of one part; the state is (name, filename, content type).\<close>

fun parse_part_headers ::
    "string list \<Rightarrow> string \<times> string \<times> string \<Rightarrow> string \<times> string \<times> string" where
  "parse_part_headers [] st = st"
| "parse_part_headers (hline # lines) (name, fname, ctype) =
     (if find_from hline ''Content-Disposition:'' 0 \<noteq> None then
        parse_part_headers lines
          (case quoted_value hline (''name='' @ [CHR 0x22]) of
             None \<Rightarrow> name | Some n \<Rightarrow> n,
           case quoted_value hline (''filename='' @ [CHR 0x22]) of
             None \<Rightarrow> fname | Some f \<Rightarrow> f,
           ctype)
      else if find_from hline ''Content-Type:'' 0 \<noteq> None then
        parse_part_headers lines (name, fname, trim (drop 13 hline))
      else parse_part_headers lines (name, fname, ctype))"

definition store_part :: "HttpRequest \<Rightarrow> string \<Rightarrow> string \<Rightarrow> HttpRequest" where
  "store_part request part_headers content =
     (case parse_part_headers (getlines LF part_headers) ([], [], []) of
        (name, fname, ctype) \<Rightarrow>
          if fname \<noteq> [] then
            request\<lparr>files :=
              map_assign name \<lparr>filename = fname, content_type = ctype, data = content\<rparr>
                (files request)\<rparr>
          else request\<lparr>form_data := map_assign name content (form_data request)\<rparr>)"

text \<open>
  The \<^verbatim>\<open>while\<close> loop of \<^verbatim>\<open>parse_multipart_form_data\<close>.  The length of the content,
  \<^verbatim>\<open>content_end - pos - 2\<close>, is computed in \<^verbatim>\<open>size_t\<close> (64 bits) and wraps around when
  the delimiter follows the header block within fewer than two bytes.
\<close>

function multipart_loop :: "string \<Rightarrow> string \<Rightarrow> nat \<Rightarrow> HttpRequest \<Rightarrow> HttpRequest" where
  "multipart_loop delimiter body_text pos request =
     (case find_from body_text delimiter pos of
        None \<Rightarrow> request
      | Some found \<Rightarrow>
          if length body_text \<le> found + length delimiter
             \<or> substr body_text (found + length delimiter) 2 = ''--''
          then request
          else
            (case find_from body_text (CRLF @ CRLF) (found + length delimiter) of
               None \<Rightarrow> request
             | Some header_end \<Rightarrow>
                 (case find_from body_text delimiter (header_end + 4) of
                    None \<Rightarrow> request
                  | Some content_end \<Rightarrow>
                      multipart_loop delimiter body_text content_end
                        (store_part request
                           (substr body_text (found + length delimiter)
                              (header_end - (found + length delimiter)))
                           (substr body_text (header_end + 4)
                              ((content_end + 2 ^ 64 - (header_end + 4) - 2) mod 2 ^ 64))))))"
  by pat_completeness auto
termination
  by (relation "measure (\<lambda>(delimiter, body_text, pos, request). length body_text - pos)")
    (auto simp: find_from_def split: if_splits)

declare multipart_loop.simps [simp del]

definition parse_multipart_form_data :: "HttpRequest \<Rightarrow> string \<Rightarrow> HttpRequest" where
  "parse_multipart_form_data request boundary =
     multipart_loop (''--'' @ boundary) (req_body request) 0 request"

section \<open>\<^verbatim>\<open>parse_request\<close>\<close>

text \<open>
  The boundary parameter of a multipart content type: the text after \<^verbatim>\<open>boundary=\<close> up to
  the first of \<^verbatim>\<open>; space tab CR LF "\<close>, without a leading and a trailing quote.
\<close>

definition boundary_of :: "string \<Rightarrow> string option" where
  "boundary_of ctype =
     (case find_from ctype ''boundary='' 0 of
        None \<Rightarrow> None
      | Some boundary_pos \<Rightarrow>
          let b0 = drop (boundary_pos + 9) ctype;
              b1 = takeWhile (\<lambda>c. c \<notin> set [CHR '';'', CHR '' '', TAB, CR, LF, CHR 0x22]) b0;
              b2 = (if b1 \<noteq> [] \<and> hd b1 = CHR 0x22 then tl b1 else b1);
              b3 = (if b2 \<noteq> [] \<and> last b2 = CHR 0x22 then butlast b2 else b2)
          in Some b3)"

definition parse_form :: "(nat \<Rightarrow> int) \<Rightarrow> HttpRequest \<Rightarrow> HttpRequest" where
  "parse_form junk request =
     (case map_find ''Content-Type'' (req_headers request) of
        None \<Rightarrow> request
      | Some ctype \<Rightarrow>
          if find_from ctype ''multipart/form-data'' 0 \<noteq> None then
            (case boundary_of ctype of
               None \<Rightarrow> request
             | Some boundary \<Rightarrow> parse_multipart_form_data request boundary)
          else if find_from ctype ''application/x-www-form-urlencoded'' 0 \<noteq> None then
            parse_url_encoded_form_data junk request
          else request)"

definition parse_request_line :: "(nat \<Rightarrow> int) \<Rightarrow> string \<Rightarrow> HttpRequest" where
  "parse_request_line junk line =
     (let ws = words_acc [] line;
          raw_path = word_at ws 1;
          request = HttpRequest_default\<lparr>req_method := word_at ws 0, req_path := raw_path,
                      req_version := word_at ws 2\<rparr>
      in case split_first (CHR ''?'') raw_path of
           None \<Rightarrow> request
         | Some (p, query_string) \<Rightarrow>
             request\<lparr>req_path := p,
               query_params := parse_pairs junk (getlines (CHR ''&'') query_string) []\<rparr>)"

definition parse_request :: "(nat \<Rightarrow> int) \<Rightarrow> string \<Rightarrow> HttpRequest" where
  "parse_request junk request_text =
     (case getlines LF request_text of
        [] \<Rightarrow> HttpRequest_default
      | line # lines \<Rightarrow>
          (case parse_headers lines [] of
             (hs, body_lines) \<Rightarrow>
               parse_form junk
                 ((parse_request_line junk line)
                    \<lparr>req_headers := hs, req_body := join_body body_lines\<rparr>)))"







section \<open>Facts about \<^verbatim>\<open>std::map\<close>\<close>

lemma set_map_assign:
  "fst ` set (map_assign k v m) = insert k (fst ` set m)"
  by (induction k v m rule: map_assign.induct) (simp_all add: insert_commute)

lemma std_map_assign:
  "std_map m \<Longrightarrow> std_map (map_assign k v m)"
proof (induction m)
  case Nil
  then show ?case by (simp add: std_map_def)
next
  case (Cons e m)
  obtain k' v' where e: "e = (k', v')" by (cases e)
  from Cons.prems have tl: "std_map m" and hd: "\<forall>x \<in> fst ` set m. k' < x"
    by (auto simp: std_map_def e)
  have ih: "std_map (map_assign k v m)" using Cons.IH tl by simp
  show ?case
  proof (cases "k < k'")
    case True
    then show ?thesis using Cons.prems by (auto simp: std_map_def e)
  next
    case False
    show ?thesis
    proof (cases "k = k'")
      case True
      then show ?thesis using Cons.prems by (auto simp: std_map_def e)
    next
      case ne: False
      with False have "k' < k" by simp
      moreover have "\<forall>x \<in> fst ` set (map_assign k v m). k' < x"
        using hd \<open>k' < k\<close> by (simp add: set_map_assign)
      ultimately show ?thesis using ih False ne
        by (simp add: std_map_def e image_iff Ball_def)
    qed
  qed
qed

lemma map_of_assign:
  "std_map m \<Longrightarrow> map_of (map_assign k v m) = (map_of m)(k \<mapsto> v)"
proof (induction m)
  case Nil
  then show ?case by simp
next
  case (Cons e m)
  obtain k' v' where e: "e = (k', v')" by (cases e)
  from Cons.prems have tl: "std_map m" by (auto simp: std_map_def)
  show ?case using Cons.IH [OF tl] by (auto simp: e fun_eq_iff)
qed

lemma std_map_distinct: "std_map m \<Longrightarrow> distinct (map fst m)"
  by (simp add: std_map_def strict_sorted_iff)

lemma std_map_filter_key:
  "std_map m \<Longrightarrow> map_of m k = Some v \<Longrightarrow> filter (\<lambda>(k', v'). k' = k) m = [(k, v)]"
proof (induction m)
  case Nil
  then show ?case by simp
next
  case (Cons e m)
  obtain k' v' where e: "e = (k', v')" by (cases e)
  from Cons.prems have tl: "std_map m" and hd: "\<forall>x \<in> fst ` set m. k' < x"
    by (auto simp: std_map_def e)
  show ?case
  proof (cases "k' = k")
    case True
    with hd have "\<forall>x \<in> set m. fst x \<noteq> k" by auto
    then have "filter (\<lambda>(k', v'). k' = k) m = []"
      by (auto simp: filter_empty_conv)
    with True Cons.prems show ?thesis by (simp add: e)
  next
    case False
    with Cons.prems Cons.IH [OF tl] show ?thesis by (simp add: e)
  qed
qed

lemma std_map_filter_none:
  "map_of m k = None \<Longrightarrow> filter (\<lambda>(k', v'). k' = k) m = []"
  by (induction m) (auto split: if_splits)

section \<open>Facts about the route table\<close>

lemma routes_wf_empty: "routes_wf []"
  by (simp add: routes_wf_def std_map_def)

lemma map_assign_entries:
  "set (map_assign k v m) \<subseteq> insert (k, v) (set m)"
  by (induction k v m rule: map_assign.induct) auto

lemma routes_wf_add_route:
  assumes "routes_wf routes"
  shows "routes_wf (add_route method path handler routes)"
proof -
  have inner: "std_map (map_index [] method routes)"
  proof (cases "map_of routes method")
    case None
    then show ?thesis by (simp add: map_index_def map_find_def std_map_def)
  next
    case (Some inner)
    then have "(method, inner) \<in> set routes" by (rule map_of_SomeD)
    with assms Some show ?thesis
      by (auto simp: map_index_def map_find_def routes_wf_def)
  qed
  have "std_map (map_assign path handler (map_index [] method routes))"
    using inner by (rule std_map_assign)
  moreover have "std_map (add_route method path handler routes)"
    using assms by (simp add: add_route_def routes_wf_def std_map_assign)
  ultimately show ?thesis
    using assms
      map_assign_entries [of "method" "map_assign path handler (map_index [] method routes)" routes]
    by (auto simp: routes_wf_def add_route_def)
qed

lemma routes_wf_register:
  "routes_wf routes \<Longrightarrow> routes_wf (register regs routes)"
  by (induction regs routes rule: register.induct) (simp_all add: routes_wf_add_route)

lemma handlers_for_filter:
  "handlers_for routes method path =
     concat (map (\<lambda>(m, inner). map snd (filter (\<lambda>(t, h). t = path) inner))
                 (filter (\<lambda>(m, inner). m = method) routes))"
  unfolding handlers_for_def by (induction routes) auto

lemma handlers_for_add_route:
  assumes "routes_wf routes"
  shows "handlers_for (add_route method path handler routes) method path = [handler]"
proof -
  let ?inner = "map_assign path handler (map_index [] method routes)"
  have inner: "std_map (map_index [] method routes)"
  proof (cases "map_of routes method")
    case None
    then show ?thesis by (simp add: map_index_def map_find_def std_map_def)
  next
    case (Some inner)
    then have "(method, inner) \<in> set routes" by (rule map_of_SomeD)
    with assms Some show ?thesis
      by (auto simp: map_index_def map_find_def routes_wf_def)
  qed
  have outer: "std_map (add_route method path handler routes)"
    using assms by (simp add: add_route_def routes_wf_def std_map_assign)
  have "map_of (add_route method path handler routes) method = Some ?inner"
    using assms by (simp add: add_route_def routes_wf_def map_of_assign)
  with outer have 1: "filter (\<lambda>(m, i). m = method) (add_route method path handler routes)
      = [(method, ?inner)]"
    by (rule std_map_filter_key)
  have "map_of ?inner path = Some handler"
    using inner by (simp add: map_of_assign)
  with std_map_assign [OF inner] have 2: "filter (\<lambda>(t, h). t = path) ?inner = [(path, handler)]"
    by (rule std_map_filter_key)
  show ?thesis
    by (simp add: handlers_for_filter 1 2)
qed

lemma register_append:
  "register (xs @ ys) routes = register ys (register xs routes)"
  by (induction xs routes rule: register.induct) simp_all

section \<open>Facts about the response builder\<close>

lemma split_crlf_nonempty: "split_crlf s \<noteq> []"
  by (induction s rule: split_crlf.induct) (auto elim: cons_first.elims)

lemma split_crlf_Cons:
  "CR \<noteq> c \<Longrightarrow> split_crlf (c # s) = cons_first c (split_crlf s)"
  by (cases s) auto

lemma split_crlf_line:
  "CR \<notin> set l \<Longrightarrow> split_crlf (l @ CRLF @ rest) = l # split_crlf rest"
  by (induction l) (simp_all add: split_crlf_Cons)

lemma show_nat_digits: "set (show_nat n) \<subseteq> set ''0123456789''"
proof (induction n rule: show_nat.induct)
  case (1 n)
  have d: "\<And>k. k < 10 \<Longrightarrow> digit_char k \<in> set ''0123456789''"
    unfolding digit_char_def by (rule nth_mem) simp
  show ?case
  proof (cases "n < 10")
    case True
    then show ?thesis using d [of n] by (subst show_nat.simps) simp
  next
    case False
    then show ?thesis using 1 d [of "n mod 10"] by (subst show_nat.simps) simp
  qed
qed

lemma show_nat_no_CR: "CR \<notin> set (show_nat n)"
  using show_nat_digits [of n] by auto

lemma show_int_no_CR: "CR \<notin> set (show_int i)"
  using show_nat_no_CR by (simp add: show_int_def)

lemma split_crlf_headers:
  "\<forall>kv \<in> set hs. no_CR (fst kv) \<and> no_CR (snd kv) \<Longrightarrow>
   split_crlf (concat (map header_line hs) @ rest) = map header_text hs @ split_crlf rest"
proof (induction hs)
  case Nil
  then show ?case by simp
next
  case (Cons kv hs)
  have "CR \<notin> set (header_text kv)"
    using Cons.prems by (simp add: header_text_def no_CR_def)
  then have "split_crlf (header_text kv @ CRLF @ (concat (map header_line hs) @ rest))
      = header_text kv # split_crlf (concat (map header_line hs) @ rest)"
    by (rule split_crlf_line)
  moreover have "header_line kv = header_text kv @ CRLF"
    by (simp add: header_line_def header_text_def)
  ultimately show ?case using Cons by simp
qed

lemma takeWhile_stop: "\<not> P x \<Longrightarrow> takeWhile P (xs @ x # ys) = takeWhile P xs"
  by (induction xs) auto

lemma header_name_text: "header_name (header_text kv) = header_name (fst kv)"
  by (simp add: header_name_def header_text_def takeWhile_stop)

lemma build_response_lines:
  assumes "no_CR (status_text r)"
    and "\<forall>kv \<in> set (headers r). no_CR (fst kv) \<and> no_CR (snd kv)"
  shows "header_section (build_response r) = map header_text (headers r) @ [content_length_text r]"
proof -
  define status where "status = ''HTTP/1.1 '' @ show_int (status_code r) @ '' '' @ status_text r"
  define tail where "tail = (if \<not> is_binary r then body r else [])"
  have shape: "build_response r = status @ CRLF @
      (concat (map header_line (headers r)) @ (content_length_text r @ CRLF @ (CRLF @ tail)))"
    by (simp add: build_response_def content_length_text_def status_def tail_def)
  have "CR \<notin> set status"
    using assms(1) show_int_no_CR by (simp add: no_CR_def status_def)
  then have 1: "split_crlf (build_response r) = status #
      split_crlf (concat (map header_line (headers r)) @ (content_length_text r @ CRLF @ (CRLF @ tail)))"
    unfolding shape by (rule split_crlf_line)
  have "CR \<notin> set (content_length_text r)"
    using show_nat_no_CR by (simp add: content_length_text_def)
  then have 2: "split_crlf (content_length_text r @ CRLF @ (CRLF @ tail))
      = content_length_text r # split_crlf (CRLF @ tail)"
    by (rule split_crlf_line)
  have 3: "split_crlf (CRLF @ tail) = [] # split_crlf tail"
    using split_crlf_line [of "[]" tail] by simp
  have lines: "tl (split_crlf (build_response r))
      = map header_text (headers r) @ content_length_text r # [] # split_crlf tail"
    unfolding 1 split_crlf_headers [OF assms(2)] 2 3 by simp
  have "takeWhile (\<lambda>l. l \<noteq> [])
        (map header_text (headers r) @ content_length_text r # [] # split_crlf tail)
      = map header_text (headers r)
        @ takeWhile (\<lambda>l. l \<noteq> []) (content_length_text r # [] # split_crlf tail)"
    by (rule takeWhile_append2) (auto simp: header_text_def)
  moreover have "content_length_text r \<noteq> []"
    by (simp add: content_length_text_def)
  ultimately show ?thesis
    unfolding header_section_def lines by simp
qed

lemma content_length_lines_build:
  assumes "no_CR (status_text r)"
    and "\<forall>kv \<in> set (headers r). no_CR (fst kv) \<and> no_CR (snd kv)"
  shows "content_length_lines (build_response r)
     = map header_text (filter (\<lambda>kv. header_name (fst kv) = ''Content-Length'') (headers r))
       @ [content_length_text r]"
proof -
  have "header_name (content_length_text r) = ''Content-Length''"
    by (simp add: header_name_def content_length_text_def)
  then show ?thesis
    unfolding content_length_lines_def build_response_lines [OF assms]
    by (simp add: filter_map comp_def header_name_text)
qed

section \<open>Facts about percent decoding\<close>

lemma url_decode_loop_acc:
  "url_decode_loop j s i acc = acc @ url_decode_loop j s i []"
proof (induction "length s - i" arbitrary: i acc rule: less_induct)
  case less
  show ?case
  proof (cases "i < length s")
    case False
    then show ?thesis by (simp add: url_decode_loop.simps)
  next
    case True
    then have m1: "length s - (i + 1) < length s - i" and m3: "length s - (i + 2 + 1) < length s - i"
      by auto
    note L = url_decode_loop.simps [of j s i acc]
    note R = url_decode_loop.simps [of j s i "[]"]
    show ?thesis
      unfolding L R
      using less [OF m1, of "acc @ '' ''"] less [OF m1, of "'' ''"]
        less [OF m1, of "acc @ [s ! i]"] less [OF m1, of "[s ! i]"]
        less [OF m3, of "acc @ [static_cast_char (hex_stream_value (j i) (substr s (i + 1) 2))]"]
        less [OF m3, of "[static_cast_char (hex_stream_value (j i) (substr s (i + 1) 2))]"]
      by simp
  qed
qed

lemma url_decode_loop_shift:
  "url_decode_loop j (c # s) (Suc i) acc = url_decode_loop (\<lambda>n. j (Suc n)) s i acc"
proof (induction "length s - i" arbitrary: i acc rule: less_induct)
  case less
  show ?case
  proof (cases "i < length s")
    case False
    then show ?thesis by (simp add: url_decode_loop.simps)
  next
    case True
    then have m1: "length s - (i + 1) < length s - i" and m3: "length s - (i + 2 + 1) < length s - i"
      by auto
    note L = url_decode_loop.simps [of j "c # s" "Suc i" acc]
    note R = url_decode_loop.simps [of "\<lambda>n. j (Suc n)" s i acc]
    show ?thesis
      unfolding L R
      using less [OF m1] less [OF m3] True
      by (simp add: substr_def)
  qed
qed

lemma url_decode_Nil: "url_decode j [] = []"
  by (simp add: url_decode_def url_decode_loop.simps)

lemma url_decode_plus:
  "url_decode j (CHR ''+'' # rest) = CHR '' '' # url_decode (\<lambda>n. j (Suc n)) rest"
proof -
  have "url_decode_loop j (CHR ''+'' # rest) 0 []
      = url_decode_loop j (CHR ''+'' # rest) (Suc 0) '' ''"
    by (subst url_decode_loop.simps) simp
  also have "\<dots> = url_decode_loop (\<lambda>n. j (Suc n)) rest 0 '' ''"
    by (rule url_decode_loop_shift)
  also have "\<dots> = '' '' @ url_decode_loop (\<lambda>n. j (Suc n)) rest 0 []"
    by (rule url_decode_loop_acc)
  finally show ?thesis by (simp add: url_decode_def)
qed

lemma url_decode_other:
  assumes "c \<noteq> CHR ''+''" and "c \<noteq> CHR ''%'' \<or> length rest < 2"
  shows "url_decode j (c # rest) = c # url_decode (\<lambda>n. j (Suc n)) rest"
proof -
  have "url_decode_loop j (c # rest) 0 [] = url_decode_loop j (c # rest) (Suc 0) [c]"
    using assms by (subst url_decode_loop.simps) auto
  also have "\<dots> = url_decode_loop (\<lambda>n. j (Suc n)) rest 0 [c]"
    by (rule url_decode_loop_shift)
  also have "\<dots> = [c] @ url_decode_loop (\<lambda>n. j (Suc n)) rest 0 []"
    by (rule url_decode_loop_acc)
  finally show ?thesis by (simp add: url_decode_def)
qed

lemma url_decode_percent:
  "url_decode j (CHR ''%'' # a # b # rest)
     = static_cast_char (hex_stream_value (j 0) [a, b])
       # url_decode (\<lambda>n. j (Suc (Suc (Suc n)))) rest"
proof -
  let ?byte = "static_cast_char (hex_stream_value (j 0) [a, b])"
  have "url_decode_loop j (CHR ''%'' # a # b # rest) 0 []
      = url_decode_loop j (CHR ''%'' # a # b # rest) (Suc (Suc (Suc 0))) [?byte]"
    by (subst url_decode_loop.simps) (simp add: substr_def numeral_3_eq_3)
  also have "\<dots> = url_decode_loop (\<lambda>n. j (Suc n)) (a # b # rest) (Suc (Suc 0)) [?byte]"
    by (rule url_decode_loop_shift)
  also have "\<dots> = url_decode_loop (\<lambda>n. j (Suc (Suc n))) (b # rest) (Suc 0) [?byte]"
    by (rule url_decode_loop_shift)
  also have "\<dots> = url_decode_loop (\<lambda>n. j (Suc (Suc (Suc n)))) rest 0 [?byte]"
    by (rule url_decode_loop_shift)
  also have "\<dots> = [?byte] @ url_decode_loop (\<lambda>n. j (Suc (Suc (Suc n)))) rest 0 []"
    by (rule url_decode_loop_acc)
  finally show ?thesis by (simp add: url_decode_def)
qed

lemma hex_digit_consts:
  "hex_digit (CHR ''0'') = Some 0" "hex_digit (CHR ''x'') = None" "hex_digit (CHR ''X'') = None"
  "hex_digit (CHR ''+'') = None" "hex_digit (CHR ''-'') = None"
  "hex_digit (CHR '' '') = None" "hex_digit (CHR 0x09) = None" "hex_digit (CHR 0x0A) = None"
  "hex_digit (CHR 0x0B) = None" "hex_digit (CHR 0x0C) = None" "hex_digit (CHR 0x0D) = None"
  by (simp_all add: hex_digit_def)

lemma hex_digit_lt: "hex_digit c = Some x \<Longrightarrow> x < 16"
  by (auto simp: hex_digit_def Let_def split: if_splits)

lemma hex_digit_plain:
  assumes "hex_digit c = Some x"
  shows "\<not> isspace c" "c \<noteq> CHR ''-''" "c \<noteq> CHR ''+''" "c \<noteq> CHR ''x''" "c \<noteq> CHR ''X''"
  using assms hex_digit_consts by (auto simp: isspace_def)

lemma hex_range: "x < 16 \<Longrightarrow> y < 16 \<Longrightarrow> clamp_int (int (16 * x + y)) = int (16 * x + y)"
  by (simp add: clamp_int_def INT_MAX_def INT_MIN_def)

lemma hex_range_neg: "y < 16 \<Longrightarrow> clamp_int (- int y) = - int y"
  by (simp add: clamp_int_def INT_MAX_def INT_MIN_def)

lemma hex_pair_value:
  assumes "hex_digit a = Some x" and "hex_digit b = Some y"
  shows "hex_stream_value u [a, b] = int (16 * x + y)"
proof -
  note pa = hex_digit_plain [OF assms(1)] and pb = hex_digit_plain [OF assms(2)]
  have "hex_extract [a, b] = Stored (clamp_int (int (16 * x + y)))"
    using pa pb assms by (simp add: hex_extract_def Let_def)
  then show ?thesis
    using hex_range [OF hex_digit_lt [OF assms(1)] hex_digit_lt [OF assms(2)]]
    by (simp add: hex_stream_value_def)
qed

lemma hex_pair_no_digit:
  assumes "hex_digit a = None" and "\<not> isspace a" and "a \<noteq> CHR ''+''" and "a \<noteq> CHR ''-''"
  shows "hex_stream_value u [a, b] = 0"
proof -
  have "a \<noteq> CHR ''0''"
    using assms(1) hex_digit_consts(1) by auto
  then have "hex_extract [a, b] = Stored 0"
    using assms by (simp add: hex_extract_def Let_def)
  then show ?thesis by (simp add: hex_stream_value_def)
qed

lemma hex_pair_partial:
  assumes "hex_digit a = Some x" and "hex_digit b = None"
  shows "hex_stream_value u [a, b] = int x"
proof -
  note pa = hex_digit_plain [OF assms(1)]
  have "hex_extract [a, b] = Stored (int x)"
  proof (cases "a = CHR ''0'' \<and> (b = CHR ''x'' \<or> b = CHR ''X'')")
    case True
    then have "x = 0" using assms(1) hex_digit_consts(1) by simp
    then show ?thesis
      using True pa by (auto simp: hex_extract_def Let_def)
  next
    case False
    then have "hex_extract [a, b] = Stored (clamp_int (int (16 * 0 + x)))"
      using pa assms by (auto simp: hex_extract_def Let_def)
    then show ?thesis
      using hex_range [of 0 x] hex_digit_lt [OF assms(1)] by simp
  qed
  then show ?thesis by (simp add: hex_stream_value_def)
qed

lemma hex_pair_signed:
  assumes "a = CHR ''+'' \<or> a = CHR ''-''" and "hex_digit b = Some y"
  shows "hex_stream_value u [a, b] = (if a = CHR ''-'' then - int y else int y)"
proof -
  have sp: "\<not> isspace a"
    using assms(1) by (auto simp: isspace_def)
  have "hex_extract [a, b]
      = Stored (clamp_int (if a = CHR ''-'' then - int y else int (16 * 0 + y)))"
    using sp assms by (auto simp: hex_extract_def Let_def)
  then show ?thesis
    using hex_range [of 0 y] hex_range_neg [of y] hex_digit_lt [OF assms(2)]
    by (simp add: hex_stream_value_def)
qed

lemma hex_pair_space:
  assumes "isspace a" and "hex_digit b = Some y"
  shows "hex_stream_value u [a, b] = int y"
proof -
  note pb = hex_digit_plain [OF assms(2)]
  have "hex_extract [a, b] = Stored (clamp_int (int (16 * 0 + y)))"
    using pb assms by (simp add: hex_extract_def Let_def)
  then show ?thesis
    using hex_range [of 0 y] hex_digit_lt [OF assms(2)]
    by (simp add: hex_stream_value_def)
qed

lemma hex_pair_spaces:
  assumes "isspace a" and "isspace b"
  shows "hex_stream_value u [a, b] = u"
  using assms by (simp add: hex_stream_value_def hex_extract_def)

lemma cast_32: "static_cast_char 32 = CHR '' ''"
  by code_simp

lemma cast_37: "static_cast_char 37 = CHR ''%''"
  by code_simp

lemma cast_43: "static_cast_char 43 = CHR ''+''"
  by code_simp

lemma url_decode_example: "url_decode j ''a%20b+c'' = ''a b c''"
proof -
  have "hex_stream_value u ''20'' = 32" for u
    using hex_pair_value [of "CHR ''2''" 2 "CHR ''0''" 0 u] by (simp add: hex_digit_def)
  then show ?thesis
    by (simp add: url_decode_percent url_decode_plus url_decode_other url_decode_Nil cast_32)
qed

lemma url_decode_encode: "url_decode j (percent_encode p s) = s"
proof (induction s arbitrary: j)
  case Nil
  then show ?case by (simp add: percent_encode_def url_decode_Nil)
next
  case (Cons c s)
  have h25: "hex_stream_value u ''25'' = 37" for u
    using hex_pair_value [of "CHR ''2''" 2 "CHR ''5''" 5 u] by (simp add: hex_digit_def)
  have h2B: "hex_stream_value u ''2B'' = 43" for u
    using hex_pair_value [of "CHR ''2''" 2 "CHR ''B''" 11 u] by (simp add: hex_digit_def)
  have h20: "hex_stream_value u ''20'' = 32" for u
    using hex_pair_value [of "CHR ''2''" 2 "CHR ''0''" 0 u] by (simp add: hex_digit_def)
  have step: "percent_encode p (c # s) =
     (if c = CHR ''%'' then ''%25''
      else if c = CHR ''+'' then ''%2B''
      else if c = CHR '' '' then (if p then ''+'' else ''%20'')
      else [c]) @ percent_encode p s"
    by (simp add: percent_encode_def)
  show ?case
    unfolding step using Cons.IH
    by (cases p) (simp_all add: url_decode_percent url_decode_plus url_decode_other
        cast_37 cast_43 cast_32 h25 h2B h20)
qed

lemma hex_pair_prefix_only:
  assumes "a = CHR ''+'' \<or> a = CHR ''-'' \<or> (isspace a \<and> \<not> isspace b)"
    and "hex_digit b = None"
  shows "hex_stream_value u [a, b] = 0"
proof -
  have "hex_extract [a, b] = Stored 0"
  proof (cases "isspace a")
    case True
    with assms(1) have nb: "\<not> isspace b"
      by (auto simp: isspace_def)
    show ?thesis
    proof (cases "b = CHR ''-'' \<or> b = CHR ''+''")
      case True
      then show ?thesis
        using \<open>isspace a\<close> nb by (simp add: hex_extract_def Let_def)
    next
      case False
      then show ?thesis
        using \<open>isspace a\<close> nb assms(2) by (simp add: hex_extract_def Let_def)
    qed
  next
    case False
    with assms(1) have "a = CHR ''+'' \<or> a = CHR ''-''"
      by simp
    then show ?thesis
      using False assms(2) by (elim disjE) (simp_all add: hex_extract_def Let_def)
  qed
  then show ?thesis by (simp add: hex_stream_value_def)
qed

lemma static_cast_char_nat: "static_cast_char (int n) = char_of n"
  by (simp add: static_cast_char_def)

lemma static_cast_char_0: "static_cast_char 0 = NUL"
  by code_simp

section \<open>Facts about the route loop\<close>

lemma map_find_assign:
  "std_map m \<Longrightarrow> map_find k' (map_assign k v m) = (if k' = k then Some v else map_find k' m)"
  by (simp add: map_find_def map_of_assign)

lemma routes_wf_inner:
  assumes "routes_wf routes"
  shows "std_map (map_index [] m routes)"
proof (cases "map_of routes m")
  case None
  then show ?thesis by (simp add: map_index_def map_find_def std_map_def)
next
  case (Some inner)
  then have "(m, inner) \<in> set routes" by (rule map_of_SomeD)
  with assms Some show ?thesis
    by (auto simp: map_index_def map_find_def routes_wf_def)
qed

lemma table_lookup_add_route:
  assumes "routes_wf routes"
  shows "table_lookup (add_route m t h routes) m' t'
     = (if m' = m \<and> t' = t then Some h else table_lookup routes m' t')"
proof -
  have outer: "std_map routes" using assms by (simp add: routes_wf_def)
  note inner = routes_wf_inner [OF assms, of m]
  have old: "table_lookup routes m t' = map_find t' (map_index [] m routes)"
    by (simp add: table_lookup_def map_index_def map_find_def split: option.splits)
  show ?thesis
  proof (cases "m' = m")
    case True
    have "table_lookup (add_route m t h routes) m t'
        = map_find t' (map_assign t h (map_index [] m routes))"
      by (simp add: table_lookup_def add_route_def map_find_assign [OF outer])
    also have "\<dots> = (if t' = t then Some h else map_find t' (map_index [] m routes))"
      by (rule map_find_assign [OF inner])
    finally show ?thesis using True old by simp
  next
    case False
    then show ?thesis
      by (simp add: table_lookup_def add_route_def map_find_assign [OF outer])
  qed
qed

lemma table_lookup_register:
  "routes_wf routes \<Longrightarrow>
   table_lookup (register regs routes) m t
     = (case registered regs m t of Some h \<Rightarrow> Some h | None \<Rightarrow> table_lookup routes m t)"
proof (induction regs routes rule: register.induct)
  case (1 routes)
  then show ?case by simp
next
  case (2 m' t' h regs routes)
  have wf: "routes_wf (add_route m' t' h routes)"
    using 2(2) by (rule routes_wf_add_route)
  show ?case
    using 2(1) [OF wf] table_lookup_add_route [OF 2(2), of m' t' h m t]
    by (auto split: option.splits)
qed

lemma table_lookup_register_empty:
  "table_lookup (register regs []) m t = registered regs m t"
  using table_lookup_register [OF routes_wf_empty, of regs m t]
  by (simp add: table_lookup_def map_find_def split: option.splits)

lemma probe_regex_model: "probe regex_model pattern path = route_matches pattern path"
  by (cases "parse_regex (''^'' @ replace_params pattern @ ''$'')")
    (simp_all add: probe_def regex_model_def route_matches_def route_captures_def route_regex_def)

lemma find_route_absent:
  "m \<notin> fst ` set routes \<Longrightarrow> find_route lib routes m p = Inr None"
  by (induction lib routes m p rule: find_route.induct) auto

lemma find_route_std_map:
  "std_map routes \<Longrightarrow>
   find_route lib routes m p
     = (case map_find m routes of None \<Rightarrow> Inr None | Some inner \<Rightarrow> match_routes lib inner p)"
proof (induction lib routes m p rule: find_route.induct)
  case (1 lib m p)
  then show ?case by (simp add: map_find_def)
next
  case (2 lib m' inner rest m p)
  from 2(3) have tl: "std_map rest" and hd: "\<forall>x \<in> fst ` set rest. m' < x"
    by (auto simp: std_map_def)
  show ?case
  proof (cases "m' = m")
    case True
    with hd have "m \<notin> fst ` set rest" by auto
    then have "find_route lib rest m p = Inr None" by (rule find_route_absent)
    with True show ?thesis
      by (auto simp: map_find_def split: sum.splits option.splits)
  next
    case False
    with 2(2) [OF False tl] show ?thesis by (simp add: map_find_def)
  qed
qed

lemma std_map_Cons:
  assumes "std_map ((k, v) # rest)"
  shows "std_map rest" and "map_find k' rest \<noteq> None \<Longrightarrow> k < k'"
    and "k' \<le> k \<Longrightarrow> map_find k' rest = None"
proof -
  from assms show tl: "std_map rest" and hd: "map_find k' rest \<noteq> None \<Longrightarrow> k < k'"
    by (auto simp: std_map_def map_find_def dest!: map_of_SomeD intro: rev_image_eqI)
  show "map_find k' rest = None" if "k' \<le> k"
  proof (rule ccontr)
    assume "map_find k' rest \<noteq> None"
    then have "k < k'" by (rule hd)
    with that show False by simp
  qed
qed

text \<open>
  What the inner loop returns, told from its result: with the templates in ascending
  order, everything in front of the deciding template has been probed and did not match.
\<close>

lemma match_routes_outcome:
  assumes "std_map inner"
  shows "(case match_routes lib inner p of
            Inr (Some h) \<Rightarrow>
              \<exists>t. map_find t inner = Some h \<and> probe lib t p = Some True
                \<and> (\<forall>t'. t' < t \<and> map_find t' inner \<noteq> None \<longrightarrow> probe lib t' p = Some False)
          | Inr None \<Rightarrow> \<forall>t. map_find t inner \<noteq> None \<longrightarrow> probe lib t p = Some False
          | Inl e \<Rightarrow>
              \<exists>t. map_find t inner \<noteq> None \<and> probe lib t p = None
                \<and> (\<forall>t'. t' < t \<and> map_find t' inner \<noteq> None \<longrightarrow> probe lib t' p = Some False))"
  using assms
proof (induction lib inner p rule: match_routes.induct)
  case (1 lib path)
  then show ?case by (simp add: map_find_def)
next
  case (2 lib pattern handler rest path)
  note sm = std_map_Cons [OF "2.prems"]
  have here: "map_find pattern ((pattern, handler) # rest) = Some handler"
    by (simp add: map_find_def)
  have before: "map_find t' ((pattern, handler) # rest) = None" if "t' < pattern" for t'
    using that sm(3) [of t'] by (simp add: map_find_def)
  show ?case
  proof (cases "probe lib pattern path")
    case None
    have "\<forall>t'. t' < pattern \<and> map_find t' ((pattern, handler) # rest) \<noteq> None
        \<longrightarrow> probe lib t' path = Some False"
      using before by metis
    with None here show ?thesis
      by (auto intro!: exI [of _ pattern])
  next
    case (Some b)
    show ?thesis
    proof (cases b)
      case True
      have "\<forall>t'. t' < pattern \<and> map_find t' ((pattern, handler) # rest) \<noteq> None
          \<longrightarrow> probe lib t' path = Some False"
        using before by metis
      with Some True here show ?thesis
        by (auto intro!: exI [of _ pattern])
    next
      case False
      then have bF: "b = False" by simp
      have lift: "map_find t ((pattern, handler) # rest) = map_find t rest"
        if "map_find t rest \<noteq> None" for t
        using sm(2) [OF that] by (auto simp: map_find_def)
      have low: "probe lib t' path = Some False"
        if "t' < t" and "map_find t' ((pattern, handler) # rest) \<noteq> None"
          and "\<forall>t'. t' < t \<and> map_find t' rest \<noteq> None \<longrightarrow> probe lib t' path = Some False"
        for t t'
        using that Some bF by (cases "t' = pattern") (auto simp: map_find_def)
      note IH = "2.IH" [OF Some bF sm(1)]
      show ?thesis
      proof (cases "match_routes lib rest path")
        case (Inl e)
        with IH obtain t where t: "map_find t rest \<noteq> None" "probe lib t path = None"
          "\<forall>t'. t' < t \<and> map_find t' rest \<noteq> None \<longrightarrow> probe lib t' path = Some False"
          by auto
        have "map_find t ((pattern, handler) # rest) \<noteq> None"
          using lift [OF t(1)] t(1) by simp
        moreover have "\<forall>t'. t' < t \<and> map_find t' ((pattern, handler) # rest) \<noteq> None
            \<longrightarrow> probe lib t' path = Some False"
          using low [OF _ _ t(3)] by blast
        ultimately show ?thesis
          using Some bF Inl t(2) by (auto intro!: exI [of _ t])
      next
        case (Inr r)
        show ?thesis
        proof (cases r)
          case None
          with Inr IH have "\<forall>t. map_find t rest \<noteq> None \<longrightarrow> probe lib t path = Some False"
            by simp
          then have "\<forall>t. map_find t ((pattern, handler) # rest) \<noteq> None
              \<longrightarrow> probe lib t path = Some False"
            using Some bF by (auto simp: map_find_def)
          with Some bF Inr None show ?thesis by simp
        next
          case found: (Some h)
          with Inr IH obtain t where t: "map_find t rest = Some h" "probe lib t path = Some True"
            "\<forall>t'. t' < t \<and> map_find t' rest \<noteq> None \<longrightarrow> probe lib t' path = Some False"
            by auto
          have "map_find t ((pattern, handler) # rest) = Some h"
            using lift [of t] t(1) by simp
          moreover have "\<forall>t'. t' < t \<and> map_find t' ((pattern, handler) # rest) \<noteq> None
              \<longrightarrow> probe lib t' path = Some False"
            using low [OF _ _ t(3)] by blast
          ultimately show ?thesis
            using Some bF Inr found t(2) by (auto intro!: exI [of _ t])
        qed
      qed
    qed
  qed
qed

lemma routes_wf_inner_std_map:
  "routes_wf routes \<Longrightarrow> map_find m routes = Some inner \<Longrightarrow> std_map inner"
  by (auto simp: routes_wf_def map_find_def dest: map_of_SomeD)

text \<open>
  The route loop on the table of a server, in terms of what was registered: the inner
  map of the method holds exactly the registered templates.
\<close>

lemma find_route_register:
  "\<exists>inner. std_map inner \<and> (\<forall>t. map_find t inner = registered regs m t)
     \<and> find_route lib (register regs []) m p = match_routes lib inner p"
proof -
  define R where "R = register regs ([] :: 'a route_table)"
  have wf: "routes_wf R"
    unfolding R_def using routes_wf_empty by (rule routes_wf_register)
  then have outer: "std_map R" by (simp add: routes_wf_def)
  have look: "table_lookup R m t = registered regs m t" for t
    unfolding R_def by (rule table_lookup_register_empty)
  show ?thesis
  proof (cases "map_find m R")
    case None
    then have "map_find t [] = registered regs m t" for t
      using look [of t] by (simp add: table_lookup_def map_find_def)
    moreover have "find_route lib R m p = match_routes lib [] p"
      using None by (simp add: find_route_std_map [OF outer])
    moreover have "std_map ([] :: (string \<times> 'a) list)"
      by (simp add: std_map_def)
    ultimately show ?thesis unfolding R_def by blast
  next
    case (Some inner)
    have "std_map inner"
      using wf Some by (rule routes_wf_inner_std_map)
    moreover have "map_find t inner = registered regs m t" for t
      using look [of t] Some by (simp add: table_lookup_def)
    moreover have "find_route lib R m p = match_routes lib inner p"
      using Some by (simp add: find_route_std_map [OF outer])
    ultimately show ?thesis unfolding R_def by blast
  qed
qed

lemma eval_route_x: "route_matches ''/{x}'' ''/a'' = Some True"
  by (simp add: route_matches_def route_captures_def route_regex_def parse_regex_def
      regex_match_def cons_opt_def regex_special_def)

lemma eval_route_a: "route_matches ''/a'' ''/a'' = Some True"
  by (simp add: route_matches_def route_captures_def route_regex_def parse_regex_def
      regex_match_def cons_opt_def regex_special_def)

lemma eval_register_xa:
  "register [(''GET'', ''/{x}'', 1::nat), (''GET'', ''/a'', 2)] []
     = [(''GET'', [(''/a'', 2), (''/{x}'', 1)])]"
  by (simp add: add_route_def map_index_def map_find_def)

lemma eval_find_xa:
  "find_route regex_model (register [(''GET'', ''/{x}'', 1::nat), (''GET'', ''/a'', 2)] []) ''GET'' ''/a''
     = Inr (Some 2)"
  unfolding eval_register_xa by (simp add: probe_regex_model eval_route_a)

lemma eval_less_xa: "''/a'' < ''/{x}''"
  by simp

section \<open>Facts about template patterns\<close>

lemma replace_params_plain:
  "list_all (\<lambda>c. \<not> regex_special c) s \<Longrightarrow> replace_params (s @ rest) = s @ replace_params rest"
  by (induction s) (auto simp: regex_special_def)

lemma replace_params_param:
  assumes "name \<noteq> []" and "CHR ''}'' \<notin> set name"
  shows "replace_params (''{'' @ name @ ''}'' @ rest) = ''([^/]+)'' @ replace_params rest"
proof -
  have tw: "takeWhile (\<lambda>x. x \<noteq> CHR ''}'') (name @ CHR ''}'' # rest) = name"
    using assms(2) by (subst takeWhile_append2) auto
  have dw: "dropWhile (\<lambda>x. x \<noteq> CHR ''}'') (name @ CHR ''}'' # rest) = CHR ''}'' # rest"
    using assms(2) by (subst dropWhile_append2) auto
  show ?thesis
    using assms(1) by (simp add: tw dw)
qed

lemma replace_params_template:
  "plain_template segs \<Longrightarrow>
   replace_params (render_template segs @ rest) = concat (map segment_regex segs) @ replace_params rest"
proof (induction segs)
  case Nil
  then show ?case by (simp add: render_template_def)
next
  case (Cons seg segs)
  then have IH: "replace_params (render_template segs @ rest)
      = concat (map segment_regex segs) @ replace_params rest"
    and seg: "plain_segment seg"
    by (simp_all add: plain_template_def)
  show ?case
  proof (cases seg)
    case (Literal s)
    with seg IH show ?thesis
      using replace_params_plain [of s "render_template segs @ rest"]
      by (simp add: render_template_def)
  next
    case (Param name)
    with seg IH show ?thesis
      using replace_params_param [of name "render_template segs @ rest"]
      by (simp add: render_template_def)
  qed
qed


lemma app_opt_simps [simp]:
  "app_opt [] r = r" "app_opt xs None = None" "app_opt xs (Some ys) = Some (xs @ ys)"
  "cons_opt x (app_opt xs r) = app_opt (x # xs) r"
  "app_opt xs (app_opt ys r) = app_opt (xs @ ys) r"
  by (cases r; simp add: app_opt_def cons_opt_def)+

lemma cons_opt_app: "cons_opt x r = app_opt [x] r"
  by (cases r) (simp_all add: app_opt_def cons_opt_def)

lemma scan_plain:
  "list_all (\<lambda>c. \<not> regex_special c) s \<Longrightarrow>
   scan Normal (s @ rest) = app_opt (map TChar s) (scan Normal rest)"
proof (induction s)
  case Nil
  then show ?case by simp
next
  case (Cons c s)
  then have c: "\<not> regex_special c" and IH: "scan Normal (s @ rest) = app_opt (map TChar s) (scan Normal rest)"
    by simp_all
  from c have "c \<notin> set ''[.^$()+*?''"
    by (auto simp: regex_special_def)
  then show ?case using c IH by simp
qed

lemma scan_param:
  "scan Normal (''([^/]+)'' @ rest)
     = app_opt [TOpen, TBracket True ''/'', TQuant Plus, TClose] (scan Normal rest)"
  by (simp add: cons_opt_app)

lemma scan_template:
  "plain_template segs \<Longrightarrow>
   scan Normal (concat (map segment_regex segs) @ rest)
     = app_opt (concat (map segment_tokens segs)) (scan Normal rest)"
proof (induction segs)
  case Nil
  then show ?case by simp
next
  case (Cons seg segs)
  then have IH: "scan Normal (concat (map segment_regex segs) @ rest)
      = app_opt (concat (map segment_tokens segs)) (scan Normal rest)"
    and seg: "plain_segment seg"
    by (simp_all add: plain_template_def)
  show ?case
  proof (cases seg)
    case (Literal s)
    with seg IH show ?thesis
      using scan_plain [of s "concat (map segment_regex segs) @ rest"] by simp
  next
    case (Param name)
    with IH show ?thesis
      using scan_param [of "concat (map segment_regex segs) @ rest"] by simp
  qed
qed

lemma build_atom_once:
  "no_quant_head ts \<Longrightarrow> build None (TChar c # ts) = cons_opt (Atom (Lit c) Once) (build None ts)"
  by (auto simp: no_quant_head_def split: list.splits token.splits)

lemma no_quant_head_simps [simp]:
  "no_quant_head []" "no_quant_head (TChar c # ts)" "no_quant_head (TOpen # ts)"
  "no_quant_head (TEol # ts)"
  by (simp_all add: no_quant_head_def)

lemma build_plain:
  "no_quant_head ts \<Longrightarrow>
   build None (map TChar s @ ts) = app_opt (map (\<lambda>c. Atom (Lit c) Once) s) (build None ts)"
proof (induction s)
  case Nil
  then show ?case by simp
next
  case (Cons c s)
  have "no_quant_head (map TChar s @ ts)"
    using Cons.prems by (cases s) simp_all
  then have "build None (TChar c # map TChar s @ ts)
      = cons_opt (Atom (Lit c) Once) (build None (map TChar s @ ts))"
    by (rule build_atom_once)
  then show ?case using Cons by simp
qed

lemma build_param:
  "no_quant_head ts \<Longrightarrow>
   build None ([TOpen, TBracket True ''/'', TQuant Plus, TClose] @ ts)
     = app_opt [Group [(Bracket True ''/'', Plus)]] (build None ts)"
  by (auto simp: no_quant_head_def cons_opt_app split: list.splits token.splits)

lemma no_quant_head_template:
  "no_quant_head ts \<Longrightarrow> no_quant_head (concat (map segment_tokens segs) @ ts)"
proof (induction segs)
  case Nil
  then show ?case by simp
next
  case (Cons seg segs)
  then show ?case
    by (cases seg; cases "segment_tokens seg") auto
qed

lemma build_template:
  "no_quant_head ts \<Longrightarrow>
   build None (concat (map segment_tokens segs) @ ts)
     = app_opt (concat (map segment_pieces segs)) (build None ts)"
proof (induction segs)
  case Nil
  then show ?case by simp
next
  case (Cons seg segs)
  note nq = no_quant_head_template [OF Cons.prems, of segs]
  show ?case
  proof (cases seg)
    case (Literal s)
    then show ?thesis
      using build_plain [OF nq, of s] Cons by simp
  next
    case (Param name)
    then show ?thesis
      using build_param [OF nq] Cons by simp
  qed
qed

lemma route_regex_template:
  assumes "plain_template segs"
  shows "route_regex (render_template segs)
     = Some (Bol # concat (map segment_pieces segs) @ [Eol])"
proof -
  have "replace_params (render_template segs) = concat (map segment_regex segs)"
    using replace_params_template [OF assms, of "[]"] by simp
  moreover have "scan Normal (CHR ''^'' # concat (map segment_regex segs) @ ''$'')
      = Some (TBol # concat (map segment_tokens segs) @ [TEol])"
    using scan_template [OF assms, of "''$''"] by (simp add: cons_opt_app)
  moreover have "build None (TBol # concat (map segment_tokens segs) @ [TEol])
      = Some (Bol # concat (map segment_pieces segs) @ [Eol])"
    using build_template [of "[TEol]" segs] by (simp add: cons_opt_app)
  ultimately show ?thesis
    by (simp add: route_regex_def parse_regex_def)
qed


lemma pieces_match_caps:
  "pieces_match n ps s caps = map ((@) caps) (pieces_match n ps s [])"
proof (induction ps arbitrary: s caps)
  case Nil
  then show ?case by simp
next
  case (Cons p ps)
  show ?case
  proof (cases p)
    case Bol
    then show ?thesis using Cons [of s caps] by simp
  next
    case Eol
    then show ?thesis using Cons [of s caps] by auto
  next
    case (Atom a q)
    have "pieces_match n (Atom a q # ps) s caps
        = concat (map (\<lambda>s'. map ((@) caps) (pieces_match n ps s' [])) (item_ends (a, q) s))"
      using Cons [of _ caps] by simp
    then show ?thesis
      using Atom by (simp add: map_concat comp_def)
  next
    case (Group its)
    have 1: "pieces_match n ps s' (caps @ [c]) = map ((@) caps) (pieces_match n ps s' [c])" for s' c
      using Cons [of s' "caps @ [c]"] Cons [of s' "[c]"] by simp
    show ?thesis
      using Group by (simp add: map_concat comp_def 1)
  qed
qed

lemma pieces_match_empty_caps:
  "(pieces_match n ps s caps = []) = (pieces_match n ps s [] = [])"
  using pieces_match_caps [of n ps s caps] by simp

lemma pieces_match_literal:
  "pieces_match n (map (\<lambda>c. Atom (Lit c) Once) lit @ ps) s caps
     = (if take (length lit) s = lit then pieces_match n ps (drop (length lit) s) caps else [])"
proof (induction lit arbitrary: s)
  case Nil
  then show ?case by simp
next
  case (Cons c lit)
  show ?case
  proof (cases s)
    case Nil
    then show ?thesis by simp
  next
    case (Cons x xs)
    then show ?thesis using Cons.IH [of xs] by auto
  qed
qed

lemma set_star_ends:
  "set (star_ends a s) = {drop k s | k. k \<le> length s \<and> (\<forall>c \<in> set (take k s). atom_ok a c)}"
proof (induction s)
  case Nil
  then show ?case by auto
next
  case (Cons x xs)
  show ?case
  proof (cases "atom_ok a x")
    case False
    have "{drop k (x # xs) | k. k \<le> length (x # xs) \<and> (\<forall>c \<in> set (take k (x # xs)). atom_ok a c)}
        = {x # xs}"
    proof (intro equalityI subsetI)
      fix r assume "r \<in> {drop k (x # xs) | k. k \<le> length (x # xs)
          \<and> (\<forall>c \<in> set (take k (x # xs)). atom_ok a c)}"
      then obtain k where k: "r = drop k (x # xs)" "\<forall>c \<in> set (take k (x # xs)). atom_ok a c"
        by blast
      have "k = 0"
      proof (cases k)
        case (Suc j)
        with k(2) False show ?thesis by simp
      qed simp
      with k(1) show "r \<in> {x # xs}" by simp
    next
      fix r assume "r \<in> {x # xs}"
      then have "r = drop 0 (x # xs)" by simp
      then show "r \<in> {drop k (x # xs) | k. k \<le> length (x # xs)
          \<and> (\<forall>c \<in> set (take k (x # xs)). atom_ok a c)}"
        by (intro CollectI exI [of _ 0]) simp
    qed
    with False show ?thesis by simp
  next
    case True
    have "{drop k (x # xs) | k. k \<le> length (x # xs) \<and> (\<forall>c \<in> set (take k (x # xs)). atom_ok a c)}
        = insert (x # xs) {drop k xs | k. k \<le> length xs \<and> (\<forall>c \<in> set (take k xs). atom_ok a c)}"
      (is "?L = insert _ ?R")
    proof (intro equalityI subsetI)
      fix r assume "r \<in> ?L"
      then obtain k where k: "r = drop k (x # xs)" "k \<le> length (x # xs)"
          "\<forall>c \<in> set (take k (x # xs)). atom_ok a c"
        by blast
      show "r \<in> insert (x # xs) ?R"
      proof (cases k)
        case 0
        with k(1) show ?thesis by simp
      next
        case (Suc j)
        with k have "r = drop j xs" "j \<le> length xs" "\<forall>c \<in> set (take j xs). atom_ok a c"
          by simp_all
        then show ?thesis by blast
      qed
    next
      fix r assume "r \<in> insert (x # xs) ?R"
      then consider "r = x # xs" | j where "r = drop j xs" "j \<le> length xs"
          "\<forall>c \<in> set (take j xs). atom_ok a c"
        by blast
      then show "r \<in> ?L"
      proof cases
        case 1
        then have "r = drop 0 (x # xs)" by simp
        then show ?thesis by (intro CollectI exI [of _ 0]) simp
      next
        case 2
        then show ?thesis using True by (intro CollectI exI [of _ "Suc j"]) simp
      qed
    qed
    with True Cons.IH show ?thesis by simp
  qed
qed

lemma set_plus_ends:
  "set (item_ends (a, Plus) s)
     = {drop k s | k. 1 \<le> k \<and> k \<le> length s \<and> (\<forall>c \<in> set (take k s). atom_ok a c)}"
proof (cases s)
  case Nil
  then show ?thesis by simp
next
  case (Cons x xs)
  show ?thesis
  proof (cases "atom_ok a x")
    case False
    have "k = 0" if "\<forall>c \<in> set (take k (x # xs)). atom_ok a c" for k
      using that False by (cases k) simp_all
    then have "{drop k s | k. 1 \<le> k \<and> k \<le> length s \<and> (\<forall>c \<in> set (take k s). atom_ok a c)} = {}"
      unfolding Cons by fastforce
    with False Cons show ?thesis by simp
  next
    case True
    have "{drop k s | k. 1 \<le> k \<and> k \<le> length s \<and> (\<forall>c \<in> set (take k s). atom_ok a c)}
        = {drop j xs | j. j \<le> length xs \<and> (\<forall>c \<in> set (take j xs). atom_ok a c)}"
      (is "?L = ?R")
    proof (intro equalityI subsetI)
      fix r assume "r \<in> ?L"
      then obtain k where k: "r = drop k (x # xs)" "1 \<le> k" "k \<le> length (x # xs)"
          "\<forall>c \<in> set (take k (x # xs)). atom_ok a c"
        unfolding Cons by blast
      then obtain j where "k = Suc j" by (cases k) simp_all
      with k have "r = drop j xs" "j \<le> length xs" "\<forall>c \<in> set (take j xs). atom_ok a c"
        by simp_all
      then show "r \<in> ?R" by blast
    next
      fix r assume "r \<in> ?R"
      then obtain j where "r = drop j xs" "j \<le> length xs" "\<forall>c \<in> set (take j xs). atom_ok a c"
        by blast
      then show "r \<in> ?L"
        unfolding Cons using True by (intro CollectI exI [of _ "Suc j"]) simp
    qed
    with True Cons show ?thesis by (simp add: set_star_ends)
  qed
qed

lemma concat_map_empty: "(concat (map f xs) = []) = (\<forall>x \<in> set xs. f x = [])"
  by (induction xs) auto

lemma pieces_match_param:
  "(pieces_match n (Group [(Bracket True ''/'', Plus)] # ps) s caps \<noteq> [])
     = (\<exists>k. 1 \<le> k \<and> k \<le> length s \<and> CHR ''/'' \<notin> set (take k s)
            \<and> pieces_match n ps (drop k s) [] \<noteq> [])"
proof -
  let ?a = "Bracket True ''/''"
  have items: "items_ends [(?a, Plus)] s = item_ends (?a, Plus) s"
    by (simp del: item_ends.simps) (induction "item_ends (?a, Plus) s"; simp)
  have "(pieces_match n (Group [(?a, Plus)] # ps) s caps \<noteq> [])
      = (\<exists>s' \<in> set (item_ends (?a, Plus) s). pieces_match n ps s' [] \<noteq> [])"
    unfolding pieces_match.simps items concat_map_empty
    using pieces_match_empty_caps [of n ps] by auto
  also have "\<dots> = (\<exists>k. 1 \<le> k \<and> k \<le> length s \<and> (\<forall>c \<in> set (take k s). atom_ok ?a c)
            \<and> pieces_match n ps (drop k s) [] \<noteq> [])"
    unfolding set_plus_ends by blast
  also have "\<dots> = (\<exists>k. 1 \<le> k \<and> k \<le> length s \<and> CHR ''/'' \<notin> set (take k s)
            \<and> pieces_match n ps (drop k s) [] \<noteq> [])"
    by auto
  finally show ?thesis .
qed

lemma pieces_match_template:
  "(pieces_match n (concat (map segment_pieces segs) @ [Eol]) s caps \<noteq> [])
     = matches_segments segs s"
proof (induction segs arbitrary: s caps)
  case Nil
  then show ?case by simp
next
  case (Cons seg segs)
  show ?case
  proof (cases seg)
    case (Literal lit)
    then show ?thesis
      using pieces_match_literal [of n lit "concat (map segment_pieces segs) @ [Eol]" s caps]
        Cons [of "drop (length lit) s" caps]
      by simp
  next
    case (Param name)
    have "(pieces_match n (concat (map segment_pieces (seg # segs)) @ [Eol]) s caps \<noteq> [])
        = (\<exists>k. 1 \<le> k \<and> k \<le> length s \<and> CHR ''/'' \<notin> set (take k s)
              \<and> matches_segments segs (drop k s))"
      using pieces_match_param [of n "concat (map segment_pieces segs) @ [Eol]" s caps]
        Cons [of _ "[]"] Param
      by simp
    also have "\<dots> = matches_segments (seg # segs) s"
      unfolding Param by (auto simp: list_ex_iff)
    finally show ?thesis .
  qed
qed

lemma route_matches_template:
  assumes "plain_template segs"
  shows "route_matches (render_template segs) p = Some (matches_segments segs p)"
proof -
  have "(regex_match (Bol # concat (map segment_pieces segs) @ [Eol]) p \<noteq> None)
      = (pieces_match (length p) (concat (map segment_pieces segs) @ [Eol]) p [] \<noteq> [])"
    by (simp add: regex_match_def split: list.splits)
  then show ?thesis
    by (simp add: route_matches_def route_captures_def route_regex_template [OF assms]
        pieces_match_template)
qed

section \<open>Facts about the multipart decoder\<close>


















section \<open>Facts about the read loop\<close>

lemmas read_defs = read_request_def c_string_def find_from_def substr_def trim_def
  erase_leading_def erase_trailing_def stoul_def dec_digit_def content_length_of_def
  BUFFER_MAX_def ULONG_MAX_def isspace_def Let_def

lemmas parse_defs = parse_request_def getlines_def parse_form_def parse_request_line_def
  split_first_def map_find_def HttpRequest_default_def

lemma read_remaining_done:
  "content_length \<le> body_received st \<Longrightarrow> read_remaining content_length st = st"
  by (simp add: read_remaining.simps)

lemma read_request_without_token:
  assumes "recv sock = (bytes, socket1)" and "bytes \<noteq> []"
    and "find_from (c_string bytes) ''Content-Length:'' 0 = None"
  shows "read_request sock
     = Some \<lparr>request_str = c_string bytes, body_received = 0, socket = socket1, reads = 1\<rparr>"
  using assms by (simp add: read_request_def)

section \<open>Claims\<close>

text \<open>
  C9. The route table holds at most one handler per (method, path template) pair: after
  \<^verbatim>\<open>add_route(M, T, h1)\<close> and, any number of registrations later, \<^verbatim>\<open>add_route(M, T, h2)\<close>,
  the table of a server (which starts empty) holds \<open>h2\<close> as the only handler for
  \<open>(M, T)\<close>; \<open>h1\<close> is replaced, not kept alongside.
\<close>

theorem C9_add_route_replaces:
  "handlers_for (register (before @ [(M, T, h1)] @ between @ [(M, T, h2)]) []) M T = [h2]"
proof -
  have "routes_wf (register (before @ [(M, T, h1)] @ between) ([] :: 'a route_table))"
    using routes_wf_empty by (rule routes_wf_register)
  then have "handlers_for
      (add_route M T h2 (register (before @ [(M, T, h1)] @ between) [])) M T = [h2]"
    by (rule handlers_for_add_route)
  moreover have "register (before @ [(M, T, h1)] @ between @ [(M, T, h2)]) []
      = add_route M T h2 (register (before @ [(M, T, h1)] @ between) [])"
    using register_append [of "before @ [(M, T, h1)] @ between" "[(M, T, h2)]" "[]"]
    by simp
  ultimately show ?thesis by simp
qed

text \<open>
  C8. Building a response with status code 200, status text \<^verbatim>\<open>OK\<close>, text body \<^verbatim>\<open>ok\<close> and
  the binary flag false (whatever its header mapping and binary payload) gives wire bytes
  that begin with the status line \<^verbatim>\<open>HTTP/1.1 200 OK\<close> and CRLF, continue with one line per
  entry of the header mapping, then the header line \<^verbatim>\<open>Content-Length: 2\<close>, then the blank
  line, and end with the body \<^verbatim>\<open>ok\<close>.
\<close>

theorem C8_build_response_ok:
  "build_response \<lparr>status_code = 200, status_text = ''OK'', headers = hs, body = ''ok'',
                   binary_data = bd, is_binary = False\<rparr>
     = ''HTTP/1.1 200 OK'' @ CRLF
       @ concat (map header_line hs)
       @ ''Content-Length: 2'' @ CRLF
       @ CRLF
       @ ''ok''"
  by (simp add: build_response_def show_int_def show_nat.simps digit_char_def)

text \<open>
  C3 (as the code has it).  For every response whose status text, header names and header
  values contain no carriage return, the header lines of the wire bytes that are named
  \<^verbatim>\<open>Content-Length\<close> are: the entries that the caller stored under that name, unchanged,
  followed by exactly one line computed at build time, whose value is the binary payload's
  byte count when the binary flag is set and the text body's byte length otherwise.  The
  build-time line does not override a stored entry; the output has exactly one
  \<^verbatim>\<open>Content-Length\<close> line when the caller stored none.
\<close>

theorem C3_content_length_appended:
  assumes "no_CR (status_text r)"
    and "\<forall>kv \<in> set (headers r). no_CR (fst kv) \<and> no_CR (snd kv)"
  shows "content_length_lines (build_response r)
           = map header_text
               (filter (\<lambda>kv. header_name (fst kv) = ''Content-Length'') (headers r))
             @ [content_length_text r]
         \<and> ((\<forall>kv \<in> set (headers r). header_name (fst kv) \<noteq> ''Content-Length'')
              \<longrightarrow> content_length_lines (build_response r) = [content_length_text r])"
proof -
  have eq: "content_length_lines (build_response r)
      = map header_text
          (filter (\<lambda>kv. header_name (fst kv) = ''Content-Length'') (headers r))
        @ [content_length_text r]"
    using assms by (rule content_length_lines_build)
  have "filter (\<lambda>kv. header_name (fst kv) = ''Content-Length'') (headers r) = []"
    if "\<forall>kv \<in> set (headers r). header_name (fst kv) \<noteq> ''Content-Length''"
    using that by (simp add: filter_empty_conv)
  with eq show ?thesis by simp
qed

theorem C3_content_length_appended_witness:
  "no_CR (status_text
      \<lparr>status_code = 404, status_text = ''Not Found'',
       headers = [(''Access-Control-Allow-Origin'', ''*''), (''Content-Type'', ''application/json'')],
       body = ''{}'', binary_data = ''abc'', is_binary = True\<rparr>)
   \<and> content_length_lines (build_response
      \<lparr>status_code = 404, status_text = ''Not Found'',
       headers = [(''Access-Control-Allow-Origin'', ''*''), (''Content-Type'', ''application/json'')],
       body = ''{}'', binary_data = ''abc'', is_binary = True\<rparr>)
     = [''Content-Length: 3'']"
  using C3_content_length_appended
    [of "\<lparr>status_code = 404, status_text = ''Not Found'',
       headers = [(''Access-Control-Allow-Origin'', ''*''), (''Content-Type'', ''application/json'')],
       body = ''{}'', binary_data = ''abc'', is_binary = True\<rparr>"]
  by (simp add: no_CR_def header_name_def content_length_text_def show_nat.simps digit_char_def)

text \<open>
  C3 as stated fails: a response whose header mapping already holds a \<^verbatim>\<open>Content-Length\<close>
  entry is sent with two such header lines, the stored one first.
\<close>

theorem C3_duplicate_content_length_counterexample:
  "content_length_lines (build_response
      \<lparr>status_code = 200, status_text = ''OK'', headers = [(''Content-Length'', ''99'')],
       body = ''ok'', binary_data = [], is_binary = False\<rparr>)
     = [''Content-Length: 99'', ''Content-Length: 2'']"
  by (simp add: content_length_lines_def header_section_def header_name_def build_response_def
      show_int_def show_nat.simps digit_char_def header_line_def)

text \<open>
  C4 (as the code has it).  Read from the scanning position, the decoder
  \<^item> returns the empty string on the empty input;
  \<^item> maps a \<^verbatim>\<open>%\<close> followed by two hexadecimal digits to the single byte with that
    value and goes on behind the second digit;
  \<^item> maps \<^verbatim>\<open>+\<close> to a space;
  \<^item> passes every byte other than \<^verbatim>\<open>%\<close> and \<^verbatim>\<open>+\<close> through unchanged;
  \<^item> passes a \<^verbatim>\<open>%\<close> with fewer than two bytes behind it through unchanged
  (a \<^verbatim>\<open>%\<close> with two bytes behind it that are not both hexadecimal digits is not passed
  through: see C10).  Consequently it is a left inverse of percent-encoding over
  \<open>{%, +, space}\<close>, and \<^verbatim>\<open>a%20b+c\<close> decodes to \<^verbatim>\<open>a b c\<close>.
\<close>

theorem C4_url_decode:
  "url_decode j [] = []
   \<and> (hex_digit a = Some x \<and> hex_digit b = Some y \<longrightarrow>
        url_decode j (CHR ''%'' # a # b # r1)
          = char_of (16 * x + y) # url_decode (\<lambda>n. j (Suc (Suc (Suc n)))) r1)
   \<and> url_decode j (CHR ''+'' # r2) = CHR '' '' # url_decode (\<lambda>n. j (Suc n)) r2
   \<and> (c \<noteq> CHR ''%'' \<and> c \<noteq> CHR ''+'' \<longrightarrow>
        url_decode j (c # r3) = c # url_decode (\<lambda>n. j (Suc n)) r3)
   \<and> (length r4 < 2 \<longrightarrow>
        url_decode j (CHR ''%'' # r4) = CHR ''%'' # url_decode (\<lambda>n. j (Suc n)) r4)
   \<and> url_decode j (percent_encode p s) = s
   \<and> url_decode j ''a%20b+c'' = ''a b c''"
proof -
  have hex: "hex_digit a = Some x \<and> hex_digit b = Some y \<longrightarrow>
      url_decode j (CHR ''%'' # a # b # r1)
        = char_of (16 * x + y) # url_decode (\<lambda>n. j (Suc (Suc (Suc n)))) r1"
  proof (intro impI, elim conjE)
    assume d: "hex_digit a = Some x" "hex_digit b = Some y"
    show "url_decode j (CHR ''%'' # a # b # r1)
        = char_of (16 * x + y) # url_decode (\<lambda>n. j (Suc (Suc (Suc n)))) r1"
      unfolding url_decode_percent hex_pair_value [OF d] static_cast_char_nat ..
  qed
  have other: "c \<noteq> CHR ''%'' \<and> c \<noteq> CHR ''+'' \<longrightarrow>
      url_decode j (c # r3) = c # url_decode (\<lambda>n. j (Suc n)) r3"
    by (simp add: url_decode_other)
  have short: "length r4 < 2 \<longrightarrow>
      url_decode j (CHR ''%'' # r4) = CHR ''%'' # url_decode (\<lambda>n. j (Suc n)) r4"
    by (simp add: url_decode_other)
  note parts = url_decode_Nil [of j] hex url_decode_plus [of j r2] other short
    url_decode_encode [of j p s] url_decode_example [of j]
  show ?thesis
    by (intro conjI) (fact parts)+
qed

theorem C4_url_decode_witness:
  "hex_digit (CHR ''4'') = Some 4 \<and> hex_digit (CHR ''1'') = Some 1
   \<and> url_decode (\<lambda>n. 0) ''%41'' = [char_of (65 :: nat)]
   \<and> CHR ''q'' \<noteq> CHR ''%'' \<and> CHR ''q'' \<noteq> CHR ''+''
   \<and> url_decode (\<lambda>n. 0) ''q'' = ''q''
   \<and> length ''4'' < 2
   \<and> url_decode (\<lambda>n. 0) ''%4'' = CHR ''%'' # url_decode (\<lambda>n. 0) ''4''"
  using C4_url_decode [of "\<lambda>n. 0" "CHR ''4''" 4 "CHR ''1''" 1 "[]" "[]" "CHR ''q''" "[]" "''4''"]
  by (simp add: hex_digit_def)

text \<open>
  C4 as stated fails in its clause that every other byte passes through unchanged: the
  three bytes \<^verbatim>\<open>%zz\<close> are not passed through but replaced by the single byte 0.
\<close>

theorem C4_percent_non_hex_counterexample:
  "url_decode (\<lambda>n. 0) ''%zz'' = [NUL]"
  by (simp add: url_decode_percent url_decode_Nil hex_pair_no_digit hex_digit_def isspace_def
      static_cast_char_0)

text \<open>
  C10 (as the code has it).  At the scanning position, a \<^verbatim>\<open>%\<close> followed by at least two
  further bytes \<open>a\<close>, \<open>b\<close> is consumed together with both and replaced by exactly one
  byte, the low eight bits of what the hexadecimal extraction leaves in \<^verbatim>\<open>hex_value\<close>;
  decoding goes on behind \<open>b\<close>.  That value is
  \<^item> 0 when \<open>a\<close> is neither a hexadecimal digit, a sign nor white space;
  \<^item> the value of \<open>a\<close> when \<open>a\<close> is a hexadecimal digit and \<open>b\<close> is not;
  \<^item> the value of \<open>b\<close> when \<open>a\<close> is \<^verbatim>\<open>+\<close> or white space and \<open>b\<close> a hexadecimal digit,
    and its negation when \<open>a\<close> is \<^verbatim>\<open>-\<close>;
  \<^item> 0 when \<open>a\<close> is a sign, or white space before a byte that is not white space, and
    \<open>b\<close> is not a hexadecimal digit;
  \<^item> the indeterminate old content of the variable when both are white space.
\<close>

theorem C10_percent_consumes_pair:
  "url_decode j (CHR ''%'' # a # b # rest)
     = static_cast_char (hex_stream_value (j 0) [a, b])
       # url_decode (\<lambda>n. j (Suc (Suc (Suc n)))) rest
   \<and> (hex_digit a = None \<and> \<not> isspace a \<and> a \<noteq> CHR ''+'' \<and> a \<noteq> CHR ''-'' \<longrightarrow>
        hex_stream_value u [a, b] = 0)
   \<and> (hex_digit a = Some x \<and> hex_digit b = None \<longrightarrow> hex_stream_value u [a, b] = int x)
   \<and> ((a = CHR ''+'' \<or> isspace a) \<and> hex_digit b = Some y \<longrightarrow>
        hex_stream_value u [a, b] = int y)
   \<and> (a = CHR ''-'' \<and> hex_digit b = Some y \<longrightarrow> hex_stream_value u [a, b] = - int y)
   \<and> ((a = CHR ''+'' \<or> a = CHR ''-'' \<or> (isspace a \<and> \<not> isspace b)) \<and> hex_digit b = None \<longrightarrow>
        hex_stream_value u [a, b] = 0)
   \<and> (isspace a \<and> isspace b \<longrightarrow> hex_stream_value u [a, b] = u)"
proof -
  have none: "hex_digit a = None \<and> \<not> isspace a \<and> a \<noteq> CHR ''+'' \<and> a \<noteq> CHR ''-'' \<longrightarrow>
      hex_stream_value u [a, b] = 0"
    by (simp add: hex_pair_no_digit)
  have partial: "hex_digit a = Some x \<and> hex_digit b = None \<longrightarrow>
      hex_stream_value u [a, b] = int x"
    by (simp add: hex_pair_partial)
  have plus: "(a = CHR ''+'' \<or> isspace a) \<and> hex_digit b = Some y \<longrightarrow>
      hex_stream_value u [a, b] = int y"
    using hex_pair_signed [of a b y u] hex_pair_space [of a b y u] by auto
  have minus: "a = CHR ''-'' \<and> hex_digit b = Some y \<longrightarrow> hex_stream_value u [a, b] = - int y"
    using hex_pair_signed [of a b y u] by auto
  have prefix: "(a = CHR ''+'' \<or> a = CHR ''-'' \<or> (isspace a \<and> \<not> isspace b)) \<and> hex_digit b = None
      \<longrightarrow> hex_stream_value u [a, b] = 0"
    using hex_pair_prefix_only [of a b u] by simp
  have spaces: "isspace a \<and> isspace b \<longrightarrow> hex_stream_value u [a, b] = u"
    by (simp add: hex_pair_spaces)
  note parts = url_decode_percent [of j a b rest] none partial plus minus prefix spaces
  show ?thesis
    by (intro conjI) (fact parts)+
qed

theorem C10_percent_consumes_pair_witness:
  "hex_digit (CHR ''z'') = None \<and> \<not> isspace (CHR ''z'')
   \<and> hex_stream_value 7 ''zz'' = 0
   \<and> url_decode (\<lambda>n. 7) ''%zz'' = [NUL]"
  using C10_percent_consumes_pair [of "\<lambda>n. 7" "CHR ''z''" "CHR ''z''" "[]" 7 0 0]
  by (simp add: hex_digit_def isspace_def url_decode_Nil static_cast_char_0)

text \<open>
  C10 as stated fails in its clause that a pair with no leading hexadecimal digit gives
  the byte 0: the extraction accepts a sign, so \<^verbatim>\<open>%+4\<close> decodes to the byte 4.
\<close>

theorem C10_signed_pair_counterexample:
  "hex_digit (CHR ''+'') = None \<and> url_decode (\<lambda>n. 0) ''%+4'' = [CHR 0x04]"
proof -
  have "hex_digit (CHR ''4'') = Some 4"
    by (simp add: hex_digit_def)
  then have "hex_stream_value 0 ''+4'' = 4"
    using hex_pair_signed [of "CHR ''+''" "CHR ''4''" 4 0] by simp
  moreover have "static_cast_char 4 = CHR 0x04"
    by code_simp
  ultimately show ?thesis
    by (simp add: url_decode_percent url_decode_Nil hex_digit_consts)
qed

text \<open>
  The route loop stops at a pattern that the library rejects: with \<^verbatim>\<open>GET /(\<close> and
  \<^verbatim>\<open>GET /a\<close> registered, the template \<^verbatim>\<open>/(\<close> sorts first, its pattern \<^verbatim>\<open>^/($\<close> has an
  unbalanced parenthesis, and the request \<^verbatim>\<open>GET /a\<close> reaches no handler although the
  template \<^verbatim>\<open>/a\<close> matches it.
\<close>

lemma find_route_unbalanced:
  "find_route regex_model (register [(''GET'', ''/('', 1::nat), (''GET'', ''/a'', 2)] []) ''GET'' ''/a''
     = Inl RegexError
   \<and> probe regex_model ''/a'' ''/a'' = Some True"
proof -
  have reg: "register [(''GET'', ''/('', 1::nat), (''GET'', ''/a'', 2)] []
      = [(''GET'', [(''/('', 1), (''/a'', 2)])]"
    by (simp add: add_route_def map_index_def map_find_def)
  have bad: "route_matches ''/('' ''/a'' = None"
    by (simp add: route_matches_def route_captures_def route_regex_def parse_regex_def
        cons_opt_def regex_special_def)
  show ?thesis
    unfolding reg by (simp add: bad probe_regex_model eval_route_a)
qed

text \<open>
  C1 (as the code has it).  The route table is a \<^verbatim>\<open>std::map\<close> keyed by method and then by
  template, so the route loop probes the templates of the request's method in ascending
  byte-wise lexicographic order of the template strings, whatever the registration order,
  and it stops at the first template whose pattern matches the path or is rejected by
  \<^verbatim>\<open>std::regex\<close>.  For every behaviour of the regex library, every sequence of
  registrations, method and path, exactly one of three things happens.  Either the handler
  invoked is the one registered last for the least template, in that order, that matches
  the path, every smaller registered template having a pattern that the library accepts
  and that does not match.  Or no handler is found (the 404 response), and every
  registered template of the method has an accepted pattern that does not match.  Or the
  construction of the pattern of some registered template throws \<^verbatim>\<open>std::regex_error\<close>,
  every smaller registered template having an accepted pattern that does not match; then
  no handler is invoked, also when a larger template matches the path.
\<close>

theorem C1_least_template_wins:
  "(\<exists>t h. find_route lib (register regs []) m p = Inr (Some h)
        \<and> registered regs m t = Some h \<and> probe lib t p = Some True
        \<and> (\<forall>t'. t' < t \<and> registered regs m t' \<noteq> None \<longrightarrow> probe lib t' p = Some False))
   \<or> (find_route lib (register regs []) m p = Inr None
        \<and> (\<forall>t. registered regs m t \<noteq> None \<longrightarrow> probe lib t p = Some False))
   \<or> (\<exists>t. find_route lib (register regs []) m p = Inl RegexError
        \<and> registered regs m t \<noteq> None \<and> probe lib t p = None
        \<and> (\<forall>t'. t' < t \<and> registered regs m t' \<noteq> None \<longrightarrow> probe lib t' p = Some False))"
proof -
  from find_route_register [of regs m lib p]
  obtain inner where sm: "std_map inner"
    and reg: "\<And>t. map_find t inner = registered regs m t"
    and fr: "find_route lib (register regs []) m p = match_routes lib inner p"
    by blast
  note out = match_routes_outcome [OF sm, of lib p]
  show ?thesis
  proof (cases "match_routes lib inner p")
    case (Inl e)
    have e: "e = RegexError" by (cases e) simp
    from out Inl obtain t where "map_find t inner \<noteq> None" "probe lib t p = None"
      "\<forall>t'. t' < t \<and> map_find t' inner \<noteq> None \<longrightarrow> probe lib t' p = Some False"
      by auto
    then have "registered regs m t \<noteq> None \<and> probe lib t p = None
        \<and> (\<forall>t'. t' < t \<and> registered regs m t' \<noteq> None \<longrightarrow> probe lib t' p = Some False)"
      by (simp add: reg)
    with fr Inl e show ?thesis by auto
  next
    case (Inr r)
    show ?thesis
    proof (cases r)
      case None
      with out Inr have "\<forall>t. registered regs m t \<noteq> None \<longrightarrow> probe lib t p = Some False"
        by (simp add: reg)
      with fr Inr None show ?thesis by simp
    next
      case (Some h)
      with out Inr obtain t where "map_find t inner = Some h" "probe lib t p = Some True"
        "\<forall>t'. t' < t \<and> map_find t' inner \<noteq> None \<longrightarrow> probe lib t' p = Some False"
        by auto
      then have "registered regs m t = Some h \<and> probe lib t p = Some True
          \<and> (\<forall>t'. t' < t \<and> registered regs m t' \<noteq> None \<longrightarrow> probe lib t' p = Some False)"
        by (simp add: reg)
      with fr Inr Some show ?thesis by auto
    qed
  qed
qed

theorem C1_least_template_wins_witness:
  "find_route regex_model (register [(''GET'', ''/{x}'', 1::nat), (''GET'', ''/a'', 2)] [])
       ''GET'' ''/a''
     = Inr (Some 2)
   \<and> registered [(''GET'', ''/{x}'', 1::nat), (''GET'', ''/a'', 2)] ''GET'' ''/a'' = Some 2
   \<and> probe regex_model ''/a'' ''/a'' = Some True
   \<and> ''/a'' < ''/{x}''"
proof -
  define regs where "regs = [(''GET'', ''/{x}'', 1::nat), (''GET'', ''/a'', 2)]"
  have ra: "registered regs ''GET'' ''/a'' = Some 2"
    by (simp add: regs_def)
  have only: "t = ''/{x}'' \<or> t = ''/a''" if "registered regs ''GET'' t \<noteq> None" for t
    using that by (simp add: regs_def split: if_splits)
  have h: "h = 2" if "registered regs ''GET'' ''/a'' = Some h" for h
    using that ra by simp
  have pa: "probe regex_model ''/a'' ''/a'' = Some True"
    by (simp add: probe_regex_model eval_route_a)
  have px: "probe regex_model ''/{x}'' ''/a'' = Some True"
    by (simp add: probe_regex_model eval_route_x)
  have lt: "''/a'' < ''/{x}''"
    by simp
  from C1_least_template_wins [of regex_model regs "''GET''" "''/a''"]
  consider t h where "find_route regex_model (register regs []) ''GET'' ''/a'' = Inr (Some h)"
      "registered regs ''GET'' t = Some h"
      "\<forall>t'. t' < t \<and> registered regs ''GET'' t' \<noteq> None
         \<longrightarrow> probe regex_model t' ''/a'' = Some False"
    | "\<forall>t. registered regs ''GET'' t \<noteq> None \<longrightarrow> probe regex_model t ''/a'' = Some False"
    | t where "registered regs ''GET'' t \<noteq> None" "probe regex_model t ''/a'' = None"
    by blast
  then have "find_route regex_model (register regs []) ''GET'' ''/a'' = Inr (Some 2)"
  proof cases
    case 1
    from 1(2) only [of t] have "t = ''/{x}'' \<or> t = ''/a''" by simp
    then show ?thesis
    proof
      assume "t = ''/{x}''"
      with 1(3) lt ra have "probe regex_model ''/a'' ''/a'' = Some False" by simp
      with pa show ?thesis by simp
    next
      assume "t = ''/a''"
      with 1(1,2) h show ?thesis by simp
    qed
  next
    case 2
    with ra have "probe regex_model ''/a'' ''/a'' = Some False" by simp
    with pa show ?thesis by simp
  next
    case 3
    from only [OF 3(1)] 3(2) pa px show ?thesis by auto
  qed
  with ra pa lt show ?thesis unfolding regs_def by simp
qed

text \<open>
  C1 as stated fails: with \<^verbatim>\<open>GET /{x}\<close> registered first and \<^verbatim>\<open>GET /a\<close> second, both
  templates match the path \<^verbatim>\<open>/a\<close>; registration order selects the first handler, the
  route loop invokes the second.
\<close>

theorem C1_registration_order_counterexample:
  "registration_order_match regex_model
       [(''GET'', ''/{x}'', 1::nat), (''GET'', ''/a'', 2)] ''GET'' ''/a''
     = Some 1
   \<and> find_route regex_model (register [(''GET'', ''/{x}'', 1::nat), (''GET'', ''/a'', 2)] [])
       ''GET'' ''/a''
     = Inr (Some 2)"
  using eval_find_xa by (simp add: probe_regex_model eval_route_x)

text \<open>
  C5 (as the code has it).  For every template whose literal text contains no character
  that is special in a regular expression (and whose parameter names are non-empty),
  matching is anchored to the whole path: every \<^verbatim>\<open>{name}\<close> matches one or more bytes
  none of which is a slash, and the literal text must match exactly.  In particular the
  template \<^verbatim>\<open>/api/data/{collection}/{id}\<close> matches the path \<^verbatim>\<open>/api/data/users/42\<close>,
  capturing \<^verbatim>\<open>users\<close> and \<^verbatim>\<open>42\<close> as groups 1 and 2, and matches neither
  \<^verbatim>\<open>/api/data/users\<close> nor \<^verbatim>\<open>/api/data/users/42/extra\<close>.
\<close>

theorem C5_template_matching:
  assumes "plain_template segs"
  shows "route_matches (render_template segs) p = Some (matches_segments segs p)
    \<and> route_captures ''/api/data/{collection}/{id}'' ''/api/data/users/42''
        = Some (Some [''users'', ''42''])
    \<and> route_matches ''/api/data/{collection}/{id}'' ''/api/data/users'' = Some False
    \<and> route_matches ''/api/data/{collection}/{id}'' ''/api/data/users/42/extra'' = Some False"
proof -
  note defs = route_matches_def route_captures_def route_regex_def parse_regex_def
    regex_match_def cons_opt_def regex_special_def
  have "route_captures ''/api/data/{collection}/{id}'' ''/api/data/users/42''
      = Some (Some [''users'', ''42''])"
    by (simp add: defs)
  moreover have "route_matches ''/api/data/{collection}/{id}'' ''/api/data/users'' = Some False"
    by (simp add: defs)
  moreover have "route_matches ''/api/data/{collection}/{id}'' ''/api/data/users/42/extra''
      = Some False"
    by (simp add: defs)
  ultimately show ?thesis
    using route_matches_template [OF assms, of p] by simp
qed

theorem C5_template_matching_witness:
  "plain_template [Literal ''/api/files/download/'', Param ''filename'']
   \<and> route_matches (render_template [Literal ''/api/files/download/'', Param ''filename''])
        ''/api/files/download/a.png'' = Some True
   \<and> route_matches (render_template [Literal ''/api/files/download/'', Param ''filename''])
        ''/api/files/download/x/a.png'' = Some False"
proof -
  have h: "plain_template [Literal ''/api/files/download/'', Param ''filename'']"
    by (simp add: plain_template_def regex_special_def)
  show ?thesis
    using h C5_template_matching [OF h, of "''/api/files/download/a.png''"]
      C5_template_matching [OF h, of "''/api/files/download/x/a.png''"]
    by (simp add: upt_rec)
qed

text \<open>
  C5 as stated fails for literal text with a character that is special in a regular
  expression: the template \<^verbatim>\<open>/a.b\<close> has no parameter, its literal text differs from the
  path \<^verbatim>\<open>/axb\<close>, and yet it matches.
\<close>

theorem C5_literal_dot_counterexample:
  "matches_segments [Literal ''/a.b''] ''/axb'' = False
   \<and> route_matches (render_template [Literal ''/a.b'']) ''/axb'' = Some True"
  by (simp add: route_matches_def route_captures_def route_regex_def parse_regex_def
      regex_match_def cons_opt_def regex_special_def render_template_def)


text \<open>
  C2, evaluated.  The head announces three body bytes and the initial read brings one.
  \<^item> When the second read brings the bytes NUL and \<^verbatim>\<open>b\<close>, the loop counts two more bytes
    and stops, but appends nothing: the buffer that goes to the parser still holds the
    one body byte of the initial read, although no read returned no bytes.
  \<^item> On the two variants of this input without a NUL byte the loop does what the claim
    says: the second read \<^verbatim>\<open>bc\<close> is appended and the loop stops; and when the peer closes
    after \<^verbatim>\<open>b\<close>, a third read returns nothing and the buffer holds what was accumulated.
\<close>

theorem C2_nul_bytes_dropped:
  "read_request [post_head @ ''a'', [NUL, CHR ''b'']]
     = Some \<lparr>request_str = post_head @ ''a'', body_received = 3, socket = [], reads = 2\<rparr>
   \<and> read_request [post_head @ ''a'', ''bc'']
     = Some \<lparr>request_str = post_head @ ''abc'', body_received = 3, socket = [], reads = 2\<rparr>
   \<and> read_request [post_head @ ''a'', ''b'']
     = Some \<lparr>request_str = post_head @ ''ab'', body_received = 2, socket = [], reads = 3\<rparr>"
  by (simp add: read_defs post_head_def read_remaining.simps)

text \<open>
  C7, evaluated.
  \<^item> The request \<^verbatim>\<open>GET /Content-Length:5 HTTP/1.1\<close> with the single header \<^verbatim>\<open>Host: x\<close>
    has no \<^verbatim>\<open>Content-Length\<close> header, as the request parser confirms; the search for
    the text \<^verbatim>\<open>Content-Length:\<close> finds it in the request line, reads the length 5
    behind it, and the handler performs a second read, whose bytes it appends.
  \<^item> On the request \<^verbatim>\<open>GET /api/files\<close>, where the text occurs nowhere, and on the request
    with the header \<^verbatim>\<open>Content-Length: abc\<close>, whose value does not begin with a digit, the
    handler performs no further read, as the claim says.
\<close>

theorem C7_content_length_outside_headers:
  "map_find ''Content-Length'' (req_headers (parse_request (\<lambda>n. 0) get_request)) = None
   \<and> read_request [get_request, ''hello'']
       = Some \<lparr>request_str = get_request @ ''hello'', body_received = 5, socket = [], reads = 2\<rparr>
   \<and> read_request [plain_get, ''hello'']
       = Some \<lparr>request_str = plain_get, body_received = 0, socket = [''hello''], reads = 1\<rparr>
   \<and> read_request [bad_length_post, ''hello'']
       = Some \<lparr>request_str = bad_length_post, body_received = 1, socket = [''hello''], reads = 1\<rparr>"
  by (simp add: read_defs parse_defs get_request_def plain_get_def bad_length_post_def
      read_remaining.simps)

end
